theory Spec2Isabelle
  imports Main "HOL-Library.Multiset"
begin

section \<open>Python and NumPy primitives used by \<open>permutation_solution.py\<close>\<close>

text \<open>
  Exceptions the operators can raise become values. \<open>ValueError\<close> comes from
  \<open>random.randrange\<close> on an empty range and from \<open>list.remove\<close> of a missing element,
  \<open>IndexError\<close> from an index outside an array or list and from \<open>random.choice\<close> on an
  empty sequence, \<open>KeyError\<close> from \<open>set.remove\<close>, \<open>AssertionError\<close> from \<open>assert\<close>.
\<close>

datatype error = ValueError | IndexError | KeyError | AssertionError

text \<open>
  A scalar index into a Python list or a NumPy array of length \<open>n\<close>: the indices
  \<open>0 .. n-1\<close> are taken as they are, \<open>-n .. -1\<close> count from the end, everything else
  raises \<open>IndexError\<close> (here: \<open>None\<close>).
\<close>

definition np_index :: "nat \<Rightarrow> int \<Rightarrow> nat option" where
  "np_index n i =
     (if 0 \<le> i \<and> i < int n then Some (nat i)
      else if - int n \<le> i \<and> i < 0 then Some (nat (i + int n))
      else None)"

text \<open>
  \<open>a[idx]\<close> for an integer index array \<open>idx\<close> (NumPy advanced indexing) gathers
  \<open>a[idx[0]], a[idx[1]], ...\<close> into a new array.
\<close>

fun np_take :: "int list \<Rightarrow> int list \<Rightarrow> error + int list" where
  "np_take a [] = Inr []"
| "np_take a (p # ps) =
     (case np_index (length a) p of
        None \<Rightarrow> Inl IndexError
      | Some k \<Rightarrow>
          (case np_take a ps of
             Inl e \<Rightarrow> Inl e
           | Inr vs \<Rightarrow> Inr (a ! k # vs)))"

text \<open>
  \<open>a[idx] = vals\<close> for an integer index array stores \<open>vals[k]\<close> at \<open>a[idx[k]]\<close>, for
  \<open>k = 0, 1, ...\<close> in this order; the argument is the list of pairs \<open>(idx[k], vals[k])\<close>.
  An index out of range raises \<open>IndexError\<close> and the array is left as it was.
\<close>

fun np_put :: "int list \<Rightarrow> (int \<times> int) list \<Rightarrow> error + int list" where
  "np_put a [] = Inr a"
| "np_put a ((p, v) # pvs) =
     (case np_index (length a) p of
        None \<Rightarrow> Inl IndexError
      | Some k \<Rightarrow> np_put (a[k := v]) pvs)"

text \<open>
  Randomness. A generator is the list of the raw draws it will still deliver, each
  reduced to the range asked for; a generator that has run out delivers \<open>0\<close>. Every
  theorem below quantifies over the generator, that is, over every draw sequence.
\<close>

type_synonym rng = "nat list"

definition randbelow :: "nat \<Rightarrow> rng \<Rightarrow> nat \<times> rng" where
  "randbelow k r = (case r of [] \<Rightarrow> (0, []) | d # ds \<Rightarrow> (d mod k, ds))"

text \<open>\<open>random.randrange(stop)\<close>: a value of \<open>0 .. stop-1\<close>, \<open>ValueError\<close> if there is none.\<close>

definition randrange :: "int \<Rightarrow> rng \<Rightarrow> error + (int \<times> rng)" where
  "randrange stop r =
     (if stop \<le> 0 then Inl ValueError
      else (let (d, r') = randbelow (nat stop) r in Inr (int d, r')))"

text \<open>\<open>random.choice(seq)\<close>: an element of \<open>seq\<close>, \<open>IndexError\<close> if it is empty.\<close>

definition choice :: "'a list \<Rightarrow> rng \<Rightarrow> error + ('a \<times> rng)" where
  "choice xs r =
     (if xs = [] then Inl IndexError
      else (let (d, r') = randbelow (length xs) r in Inr (xs ! d, r')))"

text \<open>
  \<open>np.random.shuffle(a)\<close>: for \<open>i = n-1\<close> down to \<open>1\<close>, draw \<open>j\<close> from \<open>0 .. i\<close> and
  exchange \<open>a[i]\<close> and \<open>a[j]\<close>. \<open>shuffle_loop k\<close> runs the steps \<open>i = k, ..., 1\<close>.
\<close>

fun shuffle_loop :: "nat \<Rightarrow> 'a list \<Rightarrow> rng \<Rightarrow> 'a list \<times> rng" where
  "shuffle_loop 0 a r = (a, r)"
| "shuffle_loop (Suc k) a r =
     (let (j, r') = randbelow (Suc (Suc k)) r
      in shuffle_loop k (a[Suc k := a ! j, j := a ! Suc k]) r')"

definition shuffle :: "'a list \<Rightarrow> rng \<Rightarrow> 'a list \<times> rng" where
  "shuffle a r = shuffle_loop (length a - 1) a r"

section \<open>Solutions\<close>

text \<open>
  A solution object: the integer vector \<open>x\<close>, the cached objective value \<open>obj_val\<close> and
  the flag \<open>obj_val_valid\<close>. The record is extensible: the data a problem-specific
  subclass adds is the record's extension.
\<close>

record 'o solution =
  x :: "int list"
  obj_val :: 'o
  obj_val_valid :: bool

text \<open>
  Modelled from the spec: the base class \<open>VectorSolution\<close> (\<open>mhlib.solution\<close>) is not
  among the sources. \<open>invalidate\<close> marks the cached objective invalid.
\<close>

definition invalidate :: "('o, 'm) solution_scheme \<Rightarrow> ('o, 'm) solution_scheme" where
  "invalidate s = s\<lparr>obj_val_valid := False\<rparr>"

text \<open>
  Modelled from the spec: \<open>obj()\<close> of the base class returns the cached objective, after a
  full recomputation by the subclass's \<open>calc_objective\<close> (here \<open>calc\<close>) if the cache is
  invalid.
\<close>

definition obj ::
  "(('o, 'm) solution_scheme \<Rightarrow> 'o) \<Rightarrow> ('o, 'm) solution_scheme \<Rightarrow> 'o \<times> ('o, 'm) solution_scheme"
where
  "obj calc s =
     (if obj_val_valid s then (obj_val s, s)
      else (let v = calc s in (v, s\<lparr>obj_val := v, obj_val_valid := True\<rparr>)))"

text \<open>
  Objects live in a store: a list of solutions, an object's address is its position.
  Modelled from the spec: \<open>copy()\<close> of the base class makes a new object that duplicates
  the sequence and the cached objective state and shares nothing with its original.
\<close>

type_synonym addr = nat
type_synonym ('o, 'm) heap = "('o, 'm) solution_scheme list"

definition copy :: "('o, 'm) heap \<Rightarrow> addr \<Rightarrow> ('o, 'm) heap \<times> addr" where
  "copy h a = (h @ [h ! a], length h)"

text \<open>Assignment to the field \<open>x\<close> of the object at address \<open>a\<close>.\<close>

definition set_x :: "('o, 'm) heap \<Rightarrow> addr \<Rightarrow> int list \<Rightarrow> ('o, 'm) heap" where
  "set_x h a v = h[a := (h ! a)\<lparr>x := v\<rparr>]"

text \<open>
  The test of line 34: the set of the values is the set of \<open>0 .. length-1\<close>.
\<close>

definition is_permutation :: "int list \<Rightarrow> bool" where
  "is_permutation v = (set v = set (map int [0..<length v]))"

text \<open>
  \<open>check\<close> (lines 28-35): first \<open>super().check()\<close>, then \<open>ValueError\<close> unless the
  sequence passes the test of line 34. The base class is not among the sources:
  its \<open>check\<close> is the argument \<open>super_check\<close>, which returns normally or raises.
\<close>

definition check ::
  "(('o, 'm) solution_scheme \<Rightarrow> error + unit) \<Rightarrow> ('o, 'm) solution_scheme \<Rightarrow> error + unit"
where
  "check super_check s =
     (case super_check s of
        Inl e \<Rightarrow> Inl e
      | Inr u \<Rightarrow> if \<not> is_permutation (x s) then Inl ValueError else Inr ())"

section \<open>Cycle crossover\<close>

text \<open>
  \<open>np.empty(size, int)\<close> allocates an array without initialising it: its content is
  whatever the memory held, given here by \<open>junk\<close>.
\<close>

definition np_empty :: "(nat \<Rightarrow> int) \<Rightarrow> nat \<Rightarrow> int list" where
  "np_empty junk n = map junk [0..<n]"

text \<open>
  Lines 139-140 (and 117-118): \<open>for i, elem in enumerate(v): pos[elem] = i\<close>, from
  index \<open>i\<close> on.
\<close>

fun build_pos :: "int list \<Rightarrow> nat \<Rightarrow> int list \<Rightarrow> error + int list" where
  "build_pos [] i pos = Inr pos"
| "build_pos (elem # es) i pos =
     (case np_index (length pos) elem of
        None \<Rightarrow> Inl IndexError
      | Some k \<Rightarrow> build_pos es (Suc i) (pos[k := int i]))"

text \<open>
  Lines 149-152, the inner loop \<open>while not group[j]\<close>. The label \<open>group_id\<close> starts at
  \<open>1\<close> and is only ever incremented: it is \<open>int g + 1\<close> for the number \<open>g\<close> of cycles
  labelled so far. Every round labels an index that had no label, so the loop ends.
\<close>

function walk_cycle :: "int list \<Rightarrow> int list \<Rightarrow> nat \<Rightarrow> int \<Rightarrow> int list \<Rightarrow> error + int list" where
  "walk_cycle other_x pos g j grp =
     (case np_index (length grp) j of
        None \<Rightarrow> Inl IndexError
      | Some jn \<Rightarrow>
          if grp ! jn \<noteq> 0 then Inr grp
          else
            (case np_index (length other_x) j of
               None \<Rightarrow> Inl IndexError
             | Some jo \<Rightarrow>
                 (case np_index (length pos) (other_x ! jo) of
                    None \<Rightarrow> Inl IndexError
                  | Some pe \<Rightarrow> walk_cycle other_x pos g (pos ! pe) (grp[jn := int g + 1]))))"
  by pat_completeness auto
termination
proof (relation "measure (\<lambda>(other_x, pos, g, j, grp). length (filter (\<lambda>v. v = 0) grp))")
  show "wf (measure (\<lambda>(other_x, pos, g, j, grp). length (filter (\<lambda>v. v = 0) grp)))"
    by simp
next
  fix other_x pos :: "int list" and g :: nat and j :: int and grp :: "int list"
    and jn jo pe :: nat
  assume jn: "np_index (length grp) j = Some jn" and zero: "\<not> grp ! jn \<noteq> 0"
  from jn have lt: "jn < length grp"
    by (auto simp: np_index_def split: if_splits)
  have split: "grp = take jn grp @ grp ! jn # drop (Suc jn) grp"
    using lt by (simp add: id_take_nth_drop)
  have upd: "grp[jn := int g + 1] = take jn grp @ (int g + 1) # drop (Suc jn) grp"
    using lt by (simp add: upd_conv_take_nth_drop)
  have "length (filter (\<lambda>v. v = 0) (grp[jn := int g + 1]))
      < length (filter (\<lambda>v. v = 0) grp)"
    by (subst (2) split, subst upd) (use zero in simp)
  then show "((other_x, pos, g, pos ! pe, grp[jn := int g + 1]), (other_x, pos, g, j, grp))
      \<in> measure (\<lambda>(other_x, pos, g, j, grp). length (filter (\<lambda>v. v = 0) grp))"
    by simp
qed

declare walk_cycle.simps [simp del]

text \<open>Lines 143-153: the labels start at \<open>0\<close> (no label); \<open>for i in range(size)\<close>.\<close>

fun detect_cycles :: "int list \<Rightarrow> int list \<Rightarrow> nat list \<Rightarrow> nat \<Rightarrow> int list \<Rightarrow> error + int list" where
  "detect_cycles other_x pos [] g grp = Inr grp"
| "detect_cycles other_x pos (i # is) g grp =
     (if grp ! i \<noteq> 0 then detect_cycles other_x pos is g grp
      else
        (case walk_cycle other_x pos g (int i) grp of
           Inl e \<Rightarrow> Inl e
         | Inr grp' \<Rightarrow> detect_cycles other_x pos is (Suc g) grp'))"

text \<open>
  Lines 157-159: \<open>for i in range(size): if child.x[i] % 2 == 1: child.x[pos] = other.x[pos]\<close>.
  The test reads the child's value at \<open>i\<close>; the assignment indexes both arrays with the
  whole array \<open>pos\<close>.
\<close>

fun exchange ::
  "addr \<Rightarrow> addr \<Rightarrow> int list \<Rightarrow> nat list \<Rightarrow> ('o, 'm) heap \<Rightarrow> (error + unit) \<times> ('o, 'm) heap"
where
  "exchange other child pos [] h = (Inr (), h)"
| "exchange other child pos (i # is) h =
     (if x (h ! child) ! i mod 2 = 1 then
        (case np_take (x (h ! other)) pos of
           Inl e \<Rightarrow> (Inl e, h)
         | Inr vals \<Rightarrow>
             (case np_put (x (h ! child)) (zip pos vals) of
                Inl e \<Rightarrow> (Inl e, h)
              | Inr cx \<Rightarrow> exchange other child pos is (set_x h child cx)))
      else exchange other child pos is h)"

text \<open>
  \<open>cycle_crossover\<close> (lines 129-161) on the objects at the addresses \<open>self\<close> and \<open>other\<close>:
  the result is the exception raised or the address of the child, and the store.
\<close>

definition cycle_crossover ::
  "(nat \<Rightarrow> int) \<Rightarrow> addr \<Rightarrow> addr \<Rightarrow> ('o, 'm) heap \<Rightarrow> (error + addr) \<times> ('o, 'm) heap"
where
  "cycle_crossover junk self other h =
     (let n = length (x (h ! self)) in
      case build_pos (x (h ! self)) 0 (np_empty junk n) of
        Inl e \<Rightarrow> (Inl e, h)
      | Inr pos \<Rightarrow>
          (case detect_cycles (x (h ! other)) pos [0..<n] 0 (replicate n 0) of
             Inl e \<Rightarrow> (Inl e, h)
           | Inr grp \<Rightarrow>
               (let (h1, child) = copy h self in
                case exchange other child pos [0..<n] h1 of
                  (Inl e, h2) \<Rightarrow> (Inl e, h2)
                | (Inr u, h2) \<Rightarrow> (Inr child, h2[child := invalidate (h2 ! child)]))))"

section \<open>Random initialisation\<close>

text \<open>\<open>initialize\<close> (lines 23-26): shuffle \<open>x\<close> in place, then invalidate.\<close>

definition initialize :: "'k \<Rightarrow> rng \<Rightarrow> ('o, 'm) solution_scheme \<Rightarrow> ('o, 'm) solution_scheme" where
  "initialize k r s = invalidate (s\<lparr>x := fst (shuffle (x s) r)\<rparr>)"

section \<open>Two-exchange neighbourhood search\<close>

text \<open>
  The hook \<open>two_exchange_delta_eval(p1, p2, update_obj_val, allow_infeasible)\<close> is a method
  a subclass may override: the search takes it as an argument. It reads and changes the
  solution and returns a truth value. Lines 76-91 are the default.
\<close>

type_synonym ('o, 'm) hook =
  "nat \<Rightarrow> nat \<Rightarrow> bool \<Rightarrow> bool \<Rightarrow> ('o, 'm) solution_scheme \<Rightarrow> bool \<times> ('o, 'm) solution_scheme"

definition two_exchange_delta_eval :: "('o, 'm) hook" where
  "two_exchange_delta_eval p1 p2 update_obj_val allow_infeasible s =
     (True, if update_obj_val then invalidate s else s)"

text \<open>
  The state of a running search: the solution, the local variables \<open>best_obj\<close> and
  \<open>best_p1, best_p2\<close> (both \<open>None\<close> or both set: one optional pair), and a log of the
  hook's invocations, each with \<open>p1\<close>, \<open>p2\<close>, \<open>update_obj_val\<close> and the value returned.
  The log is not a variable of the source; it records which calls were made.
\<close>

record ('o, 'm) search =
  sol :: "('o, 'm) solution_scheme"
  best_obj :: 'o
  best_p :: "(nat \<times> nat) option"
  calls :: "(nat \<times> nat \<times> bool \<times> bool) list"

text \<open>How a piece of the loop ends: with an exception, with \<open>return\<close>, or by going on.\<close>

datatype 'a flow = Raised error 'a | Returned bool 'a | Next 'a

definition call_hook ::
  "('o, 'm) hook \<Rightarrow> nat \<Rightarrow> nat \<Rightarrow> bool \<Rightarrow> ('o, 'm) search \<Rightarrow> bool \<times> ('o, 'm) search"
where
  "call_hook hook p1 p2 update_obj_val st =
     (let (ok, s') = hook p1 p2 update_obj_val False (sol st)
      in (ok, st\<lparr>sol := s', calls := calls st @ [(p1, p2, update_obj_val, ok)]\<rparr>))"

text \<open>
  \<open>v[p1], v[p2] = v[p2], v[p1]\<close> for positions taken from \<open>order\<close> (never negative):
  both reads come first, then the two stores.
\<close>

definition swap :: "int list \<Rightarrow> nat \<Rightarrow> nat \<Rightarrow> error + int list" where
  "swap v p1 p2 =
     (if p1 < length v \<and> p2 < length v then Inr (v[p1 := v ! p2, p2 := v ! p1])
      else Inl IndexError)"

text \<open>Lines 66-68: swap back, reset \<open>obj_val\<close>, and assert the hook's answer.\<close>

definition revert ::
  "('o, 'm) hook \<Rightarrow> 'o \<Rightarrow> nat \<Rightarrow> nat \<Rightarrow> ('o, 'm) search \<Rightarrow> ('o, 'm) search flow"
where
  "revert hook orig_obj p1 p2 st =
     (case swap (x (sol st)) p1 p2 of
        Inl e \<Rightarrow> Raised e st
      | Inr v \<Rightarrow>
          (let (ok, st') = call_hook hook p1 p2 False (st\<lparr>sol := (sol st)\<lparr>x := v, obj_val := orig_obj\<rparr>\<rparr>)
           in if ok then Next st' else Raised AssertionError st'))"

text \<open>
  Lines 58-68, the body of the inner loop for one pair \<open>(p1, p2)\<close>. \<open>calc\<close> is the
  subclass's \<open>calc_objective\<close>, \<open>is_better_obj\<close> the base class's comparison.
\<close>

definition attempt ::
  "('o, 'm) hook \<Rightarrow> (('o, 'm) solution_scheme \<Rightarrow> 'o) \<Rightarrow> ('o \<Rightarrow> 'o \<Rightarrow> bool) \<Rightarrow> bool \<Rightarrow> 'o \<Rightarrow>
   nat \<Rightarrow> nat \<Rightarrow> ('o, 'm) search \<Rightarrow> ('o, 'm) search flow"
where
  "attempt hook calc is_better_obj best_improvement orig_obj p1 p2 st =
     (case swap (x (sol st)) p1 p2 of
        Inl e \<Rightarrow> Raised e st
      | Inr v \<Rightarrow>
          (let (ok, st1) = call_hook hook p1 p2 True (st\<lparr>sol := (sol st)\<lparr>x := v\<rparr>\<rparr>)
           in if ok then
                (let (new_obj, s2) = obj calc (sol st1); st2 = st1\<lparr>sol := s2\<rparr>
                 in if is_better_obj new_obj (best_obj st2) then
                      (if \<not> best_improvement then Returned True st2
                       else
                         (let (new_best, s3) = obj calc (sol st2)
                          in revert hook orig_obj p1 p2
                               (st2\<lparr>sol := s3, best_obj := new_best, best_p := Some (p1, p2)\<rparr>)))
                    else revert hook orig_obj p1 p2 st2)
              else Next st1))"

text \<open>
  Lines 58-59 for a pair of valid positions: the state after the tentative swap and the
  first call of the hook, with the hook's answer. It names the "tentative swap" in the
  statements about \<open>attempt\<close>.
\<close>

definition tentative ::
  "('o, 'm) hook \<Rightarrow> nat \<Rightarrow> nat \<Rightarrow> ('o, 'm) search \<Rightarrow> bool \<times> ('o, 'm) search"
where
  "tentative hook p1 p2 st =
     call_hook hook p1 p2 True
       (st\<lparr>sol := (sol st)\<lparr>x := (x (sol st))[p1 := x (sol st) ! p2, p2 := x (sol st) ! p1]\<rparr>\<rparr>)"

text \<open>Line 57: \<open>for p2 in order[idx + 1:]\<close>.\<close>

fun inner_loop ::
  "('o, 'm) hook \<Rightarrow> (('o, 'm) solution_scheme \<Rightarrow> 'o) \<Rightarrow> ('o \<Rightarrow> 'o \<Rightarrow> bool) \<Rightarrow> bool \<Rightarrow> 'o \<Rightarrow>
   nat \<Rightarrow> nat list \<Rightarrow> ('o, 'm) search \<Rightarrow> ('o, 'm) search flow"
where
  "inner_loop hook calc is_better_obj best_improvement orig_obj p1 [] st = Next st"
| "inner_loop hook calc is_better_obj best_improvement orig_obj p1 (p2 # ps) st =
     (case attempt hook calc is_better_obj best_improvement orig_obj p1 p2 st of
        Next st' \<Rightarrow> inner_loop hook calc is_better_obj best_improvement orig_obj p1 ps st'
      | Raised e st' \<Rightarrow> Raised e st'
      | Returned b st' \<Rightarrow> Returned b st')"

text \<open>Line 56: \<open>for idx, p1 in enumerate(order[:n - 1])\<close>, over the list of the \<open>idx\<close>.\<close>

fun outer_loop ::
  "('o, 'm) hook \<Rightarrow> (('o, 'm) solution_scheme \<Rightarrow> 'o) \<Rightarrow> ('o \<Rightarrow> 'o \<Rightarrow> bool) \<Rightarrow> bool \<Rightarrow> 'o \<Rightarrow>
   nat list \<Rightarrow> nat list \<Rightarrow> ('o, 'm) search \<Rightarrow> ('o, 'm) search flow"
where
  "outer_loop hook calc is_better_obj best_improvement orig_obj order [] st = Next st"
| "outer_loop hook calc is_better_obj best_improvement orig_obj order (idx # idxs) st =
     (case inner_loop hook calc is_better_obj best_improvement orig_obj
             (order ! idx) (drop (idx + 1) order) st of
        Next st' \<Rightarrow> outer_loop hook calc is_better_obj best_improvement orig_obj order idxs st'
      | Raised e st' \<Rightarrow> Raised e st'
      | Returned b st' \<Rightarrow> Returned b st')"

text \<open>
  \<open>two_exchange_neighborhood_search\<close> (lines 37-74). \<open>n\<close> is \<open>self.inst.n\<close>. The slice
  \<open>order[:n - 1]\<close> of the \<open>n\<close> elements of \<open>order\<close> is \<open>take (n - 1) order\<close>, also for
  \<open>n = 0\<close>, where \<open>order[:-1]\<close> is the empty array. Line 69 tests the truth value of
  \<open>best_p1\<close>: \<open>None\<close> and \<open>0\<close> are false. The result is the exception raised or the value
  returned, and the state the search ends in.
\<close>

definition two_exchange_neighborhood_search ::
  "('o, 'm) hook \<Rightarrow> (('o, 'm) solution_scheme \<Rightarrow> 'o) \<Rightarrow> ('o \<Rightarrow> 'o \<Rightarrow> bool) \<Rightarrow> nat \<Rightarrow> bool \<Rightarrow> rng \<Rightarrow>
   ('o, 'm) solution_scheme \<Rightarrow> (error + bool) \<times> ('o, 'm) search"
where
  "two_exchange_neighborhood_search hook calc is_better_obj n best_improvement r s =
     (let (orig_obj, s0) = obj calc s;
          st0 = \<lparr>sol = s0, best_obj = orig_obj, best_p = None, calls = []\<rparr>;
          order = fst (shuffle [0..<n] r)
      in case outer_loop hook calc is_better_obj best_improvement orig_obj order
                [0..<length (take (n - 1) order)] st0 of
           Raised e st \<Rightarrow> (Inl e, st)
         | Returned b st \<Rightarrow> (Inr b, st)
         | Next st \<Rightarrow>
             (case best_p st of
                Some (best_p1, best_p2) \<Rightarrow>
                  if best_p1 \<noteq> 0 then
                    (case swap (x (sol st)) best_p1 best_p2 of
                       Inl e \<Rightarrow> (Inl e, st)
                     | Inr v \<Rightarrow> (Inr True, st\<lparr>sol := (sol st)\<lparr>x := v, obj_val := best_obj st\<rparr>\<rparr>))
                  else (Inr False, st\<lparr>sol := (sol st)\<lparr>obj_val := orig_obj\<rparr>\<rparr>)
              | None \<Rightarrow> (Inr False, st\<lparr>sol := (sol st)\<lparr>obj_val := orig_obj\<rparr>\<rparr>)))"

text \<open>
  The states in which the scan of a search on the solution \<open>s\<close> stands between two
  attempts: the state the scan starts in (lines 50-53: \<open>orig_obj\<close> and \<open>best_obj\<close> are
  \<open>self.obj()\<close>, no best pair, no call made), and every state in which an attempt on
  some pair lets the scan go on.
\<close>

inductive_set search_states ::
  "('o, 'm) hook \<Rightarrow> (('o, 'm) solution_scheme \<Rightarrow> 'o) \<Rightarrow> ('o \<Rightarrow> 'o \<Rightarrow> bool) \<Rightarrow> bool \<Rightarrow>
   ('o, 'm) solution_scheme \<Rightarrow> ('o, 'm) search set"
  for hook calc is_better_obj best_improvement s
where
  start:
    "\<lparr>sol = snd (obj calc s), best_obj = fst (obj calc s), best_p = None, calls = []\<rparr>
       \<in> search_states hook calc is_better_obj best_improvement s"
| go_on:
    "st \<in> search_states hook calc is_better_obj best_improvement s \<Longrightarrow>
     attempt hook calc is_better_obj best_improvement (fst (obj calc s)) p1 p2 st = Next st' \<Longrightarrow>
     st' \<in> search_states hook calc is_better_obj best_improvement s"

text \<open>
  A property of the log: every logged revert call (a call with \<open>update_obj_val = False\<close>)
  returned true.
\<close>

definition reverts_accepted :: "(nat \<times> nat \<times> bool \<times> bool) list \<Rightarrow> bool" where
  "reverts_accepted cs = list_all (\<lambda>(p1, p2, update_obj_val, ok). update_obj_val \<or> ok) cs"

text \<open>
  What holds of the log however a piece of the search ends: every revert call returned
  true, or the piece ended with \<open>AssertionError\<close> and the one revert call that returned
  false is the last call of the log.
\<close>

definition log_inv :: "('o, 'm) search flow \<Rightarrow> bool" where
  "log_inv f =
     (case f of
        Next st \<Rightarrow> reverts_accepted (calls st)
      | Returned b st \<Rightarrow> reverts_accepted (calls st)
      | Raised e st \<Rightarrow>
          reverts_accepted (calls st)
          \<or> (e = AssertionError \<and> calls st \<noteq> [] \<and> reverts_accepted (butlast (calls st))
              \<and> (case last (calls st) of (p1, p2, u, ok) \<Rightarrow> \<not> u \<and> \<not> ok)))"

text \<open>
  However a piece of the search ends, the sequence holds the elements of \<open>v\<close>, each as
  often as \<open>v\<close> does.
\<close>

definition same_elements :: "int list \<Rightarrow> ('o, 'm) search flow \<Rightarrow> bool" where
  "same_elements v f =
     (case f of
        Next st \<Rightarrow> mset (x (sol st)) = mset v
      | Returned b st \<Rightarrow> mset (x (sol st)) = mset v
      | Raised e st \<Rightarrow> mset (x (sol st)) = mset v)"

section \<open>Partially mapped crossover\<close>

text \<open>
  Lines 106-107: the two draws. The first is \<open>random.randrange(size)\<close>, the second
  \<open>random.randrange(size - 1)\<close>.
\<close>

definition pmx_draws :: "int \<Rightarrow> rng \<Rightarrow> error + (int \<times> int)" where
  "pmx_draws n r =
     (case randrange n r of
        Inl e \<Rightarrow> Inl e
      | Inr (b, r1) \<Rightarrow>
          (case randrange (n - 1) r1 of
             Inl e \<Rightarrow> Inl e
           | Inr (e0, r2) \<Rightarrow> Inr (b, e0)))"

text \<open>
  Lines 108-111 on the two draws \<open>(begin, end)\<close>: if they are equal, \<open>end\<close> is
  incremented; if then \<open>begin > end\<close>, they are exchanged.
\<close>

definition pmx_order :: "int \<times> int \<Rightarrow> int \<times> int" where
  "pmx_order d =
     (case d of
        (b, e0) \<Rightarrow>
          (let e1 = (if b = e0 then e0 + 1 else e0)
           in if b > e1 then (e1, b) else (b, e1)))"

text \<open>Lines 106-111: the cut points \<open>(begin, end)\<close> the loop runs over.\<close>

definition pmx_cuts :: "int \<Rightarrow> rng \<Rightarrow> error + (int \<times> int)" where
  "pmx_cuts n r = (case pmx_draws n r of Inl e \<Rightarrow> Inl e | Inr d \<Rightarrow> Inr (pmx_order d))"

text \<open>
  Lines 119-125, \<open>for i in range(begin, end)\<close> over the list of the \<open>i\<close>. The tuple
  assignments store left to right: \<open>child.x[i]\<close> before \<open>child.x[j]\<close>, \<open>pos[elem]\<close> before
  \<open>pos[elem_2]\<close>.
\<close>

fun pmx_loop ::
  "addr \<Rightarrow> addr \<Rightarrow> int list \<Rightarrow> int list \<Rightarrow> ('o, 'm) heap \<Rightarrow> (error + int list) \<times> ('o, 'm) heap"
where
  "pmx_loop other child [] pos h = (Inr pos, h)"
| "pmx_loop other child (i # is) pos h =
     (case np_index (length (x (h ! other))) i of
        None \<Rightarrow> (Inl IndexError, h)
      | Some io \<Rightarrow>
          (let elem = x (h ! other) ! io in
           case np_index (length pos) elem of
             None \<Rightarrow> (Inl IndexError, h)
           | Some pe \<Rightarrow>
               (let j = pos ! pe in
                if i \<noteq> j then
                  (case np_index (length (x (h ! child))) i of
                     None \<Rightarrow> (Inl IndexError, h)
                   | Some ic \<Rightarrow>
                       (let elem_2 = x (h ! child) ! ic;
                            h1 = set_x h child ((x (h ! child))[ic := elem])
                        in case np_index (length (x (h1 ! child))) j of
                             None \<Rightarrow> (Inl IndexError, h1)
                           | Some jc \<Rightarrow>
                               (let h2 = set_x h1 child ((x (h1 ! child))[jc := elem_2]);
                                    pos1 = pos[pe := i]
                                in case np_index (length pos1) elem_2 of
                                     None \<Rightarrow> (Inl IndexError, h2)
                                   | Some pe2 \<Rightarrow>
                                       pmx_loop other child is (pos1[pe2 := j]) h2)))
                else pmx_loop other child is pos h)))"

text \<open>\<open>partially_mapped_crossover\<close> (lines 93-127).\<close>

definition partially_mapped_crossover ::
  "(nat \<Rightarrow> int) \<Rightarrow> addr \<Rightarrow> addr \<Rightarrow> rng \<Rightarrow> ('o, 'm) heap \<Rightarrow> (error + addr) \<times> ('o, 'm) heap"
where
  "partially_mapped_crossover junk self other r h =
     (let n = length (x (h ! self)) in
      case pmx_cuts (int n) r of
        Inl e \<Rightarrow> (Inl e, h)
      | Inr (b, e) \<Rightarrow>
          (let (h1, child) = copy h self in
           case build_pos (x (h1 ! child)) 0 (np_empty junk n) of
             Inl err \<Rightarrow> (Inl err, h1)
           | Inr pos \<Rightarrow>
               (case pmx_loop other child [b..e - 1] pos h1 of
                  (Inl err, h2) \<Rightarrow> (Inl err, h2)
                | (Inr pos', h2) \<Rightarrow> (Inr child, h2[child := invalidate (h2 ! child)]))))"

section \<open>Edge recombination\<close>

text \<open>Lines 177-179.\<close>

definition append_if_not_contained :: "int list \<Rightarrow> int \<Rightarrow> int list" where
  "append_if_not_contained nbs nb = (if nb \<notin> set nbs then nbs @ [nb] else nbs)"

text \<open>
  Lines 182-184 and 185-187: the neighbours of every element of \<open>v\<close> in the cyclic view
  of \<open>v\<close>, over the list of the indices \<open>i\<close>. \<open>n\<close> is \<open>size\<close>, the length of \<open>self.x\<close>, for
  both parents. \<open>adj_lists[elem]\<close> is evaluated before \<open>(i-1) % size\<close>, and no index is
  valid in an empty \<open>adj_lists\<close>: the remainder is never taken with \<open>size = 0\<close>.
\<close>

fun build_adj :: "int \<Rightarrow> int list \<Rightarrow> nat list \<Rightarrow> int list list \<Rightarrow> error + int list list" where
  "build_adj n v [] adj_lists = Inr adj_lists"
| "build_adj n v (i # is) adj_lists =
     (case np_index (length adj_lists) (v ! i) of
        None \<Rightarrow> Inl IndexError
      | Some e \<Rightarrow>
          (case np_index (length v) ((int i - 1) mod n) of
             None \<Rightarrow> Inl IndexError
           | Some a \<Rightarrow>
               (let adj1 = adj_lists[e := append_if_not_contained (adj_lists ! e) (v ! a)] in
                case np_index (length v) ((int i + 1) mod n) of
                  None \<Rightarrow> Inl IndexError
                | Some b \<Rightarrow>
                    build_adj n v is (adj1[e := append_if_not_contained (adj1 ! e) (v ! b)]))))"

text \<open>
  Lines 195-196: \<open>for j in adj_lists[elem]: adj_lists[j].remove(elem)\<close>. The loop walks
  the list object at position \<open>e\<close> of \<open>adj_lists\<close> by its index \<open>k\<close>, as Python's list
  iterator does, also when the body shortens that very list. \<open>list.remove\<close> deletes the
  first occurrence and raises \<open>ValueError\<close> if there is none.
\<close>

function remove_elem :: "int \<Rightarrow> nat \<Rightarrow> nat \<Rightarrow> int list list \<Rightarrow> error + int list list" where
  "remove_elem elem e k adj_lists =
     (if k < length (adj_lists ! e) then
        (case np_index (length adj_lists) (adj_lists ! e ! k) of
           None \<Rightarrow> Inl IndexError
         | Some j \<Rightarrow>
             if elem \<in> set (adj_lists ! j)
             then remove_elem elem e (Suc k) (adj_lists[j := remove1 elem (adj_lists ! j)])
             else Inl ValueError)
      else Inr adj_lists)"
  by pat_completeness auto
termination
proof (relation "measure (\<lambda>(elem, e, k, adj_lists). length (adj_lists ! e) - k)")
  show "wf (measure (\<lambda>(elem, e, k, adj_lists). length (adj_lists ! e) - k))"
    by simp
next
  fix elem :: int and e k j :: nat and adj_lists :: "int list list"
  assume k: "k < length (adj_lists ! e)"
    and j: "np_index (length adj_lists) (adj_lists ! e ! k) = Some j"
    and mem: "elem \<in> set (adj_lists ! j)"
  from j have lt: "j < length adj_lists"
    by (auto simp: np_index_def split: if_splits)
  have "length ((adj_lists[j := remove1 elem (adj_lists ! j)]) ! e) \<le> length (adj_lists ! e)"
  proof (cases "j = e")
    case True
    then show ?thesis using lt by (simp add: length_remove1)
  next
    case False
    then show ?thesis by simp
  qed
  with k show "((elem, e, Suc k, adj_lists[j := remove1 elem (adj_lists ! j)]), (elem, e, k, adj_lists))
      \<in> measure (\<lambda>(elem, e, k, adj_lists). length (adj_lists ! e) - k)"
    by simp
qed

declare remove_elem.simps [simp del]

text \<open>
  Lines 203-208: \<open>for e2 in adj_lists[elem][1:]\<close>. \<open>degree\<close> is the length of the first
  neighbour's list; the loop does not assign it.
\<close>

fun select_candidates :: "int list list \<Rightarrow> nat \<Rightarrow> int list \<Rightarrow> int list \<Rightarrow> error + int list" where
  "select_candidates adj_lists degree [] candidates = Inr candidates"
| "select_candidates adj_lists degree (e2 # es) candidates =
     (case np_index (length adj_lists) e2 of
        None \<Rightarrow> Inl IndexError
      | Some k \<Rightarrow>
          (let degree_e2 = length (adj_lists ! k) in
           if degree_e2 < degree then select_candidates adj_lists degree es [e2]
           else if degree_e2 = degree then select_candidates adj_lists degree es (candidates @ [e2])
           else select_candidates adj_lists degree es candidates))"

text \<open>
  Lines 191-211, \<open>for i in range(size-1)\<close> over the list of the \<open>i\<close>. The set
  \<open>unvisited\<close> is a list without repetitions, in the order \<open>list(unvisited)\<close> gives;
  \<open>set.remove\<close> raises \<open>KeyError\<close> for a missing element. The result is \<open>elem\<close> after the
  loop.
\<close>

fun er_loop ::
  "addr \<Rightarrow> nat list \<Rightarrow> int list list \<Rightarrow> int list \<Rightarrow> int \<Rightarrow> rng \<Rightarrow> ('o, 'm) heap \<Rightarrow>
   (error + int) \<times> ('o, 'm) heap"
where
  "er_loop child [] adj_lists unvisited elem r h = (Inr elem, h)"
| "er_loop child (i # is) adj_lists unvisited elem r h =
     (let h1 = set_x h child ((x (h ! child))[i := elem]) in
      if elem \<notin> set unvisited then (Inl KeyError, h1)
      else
        (let unvisited1 = remove1 elem unvisited in
         case np_index (length adj_lists) elem of
           None \<Rightarrow> (Inl IndexError, h1)
         | Some e \<Rightarrow>
             (case remove_elem elem e 0 adj_lists of
                Inl err \<Rightarrow> (Inl err, h1)
              | Inr adj1 \<Rightarrow>
                  if adj1 ! e = [] then
                    (case choice unvisited1 r of
                       Inl err \<Rightarrow> (Inl err, h1)
                     | Inr (sel, r1) \<Rightarrow> er_loop child is adj1 unvisited1 sel r1 h1)
                  else
                    (case np_index (length adj1) (hd (adj1 ! e)) of
                       None \<Rightarrow> (Inl IndexError, h1)
                     | Some c0 \<Rightarrow>
                         (case select_candidates adj1 (length (adj1 ! c0)) (tl (adj1 ! e))
                                 [hd (adj1 ! e)] of
                            Inl err \<Rightarrow> (Inl err, h1)
                          | Inr candidates \<Rightarrow>
                              (case choice candidates r of
                                 Inl err \<Rightarrow> (Inl err, h1)
                               | Inr (sel, r1) \<Rightarrow>
                                   er_loop child is (adj1[e := []]) unvisited1 sel r1 h1))))))"

text \<open>\<open>edge_recombination\<close> (lines 163-214).\<close>

definition edge_recombination ::
  "addr \<Rightarrow> addr \<Rightarrow> rng \<Rightarrow> ('o, 'm) heap \<Rightarrow> (error + addr) \<times> ('o, 'm) heap"
where
  "edge_recombination self other r h =
     (let n = length (x (h ! self)) in
      case build_adj (int n) (x (h ! self)) [0..<n] (replicate n []) of
        Inl err \<Rightarrow> (Inl err, h)
      | Inr adj0 \<Rightarrow>
          (case build_adj (int n) (x (h ! other)) [0..<length (x (h ! other))] adj0 of
             Inl err \<Rightarrow> (Inl err, h)
           | Inr adj_lists \<Rightarrow>
               (let unvisited = map int [0..<n];
                    (h1, child) = copy h self
                in case randrange (int n) r of
                     Inl err \<Rightarrow> (Inl err, h1)
                   | Inr (elem, r1) \<Rightarrow>
                       (case er_loop child [0..<n - 1] adj_lists unvisited elem r1 h1 of
                          (Inl err, h2) \<Rightarrow> (Inl err, h2)
                        | (Inr last_elem, h2) \<Rightarrow>
                            (case np_index (length (x (h2 ! child))) (- 1) of
                               None \<Rightarrow> (Inl IndexError, h2)
                             | Some l \<Rightarrow>
                                 (let h3 = set_x h2 child ((x (h2 ! child))[l := last_elem])
                                  in (Inr child, h3[child := invalidate (h3 ! child)])))))))"

section \<open>What the specification says of the exchange step\<close>

text \<open>
  Section 4.5 of the specification, step 3, in its own words: the child is the first
  parent, but for the indices of every other cycle (alternating by cycle id) it carries
  the other parent's value at the same index. \<open>parity\<close> says which cycles are
  exchanged: those whose id has this remainder modulo 2. This definition follows the
  specification, not the source; it is what the source is compared with.
\<close>

definition cycle_exchange_spec :: "int \<Rightarrow> int list \<Rightarrow> int list \<Rightarrow> int list \<Rightarrow> int list" where
  "cycle_exchange_spec parity grp a b =
     map (\<lambda>i. if grp ! i mod 2 = parity then b ! i else a ! i) [0..<length a]"

section \<open>Predicates used in the proofs\<close>

text \<open>
  \<open>pos\<close> is the inverse of the sequence \<open>v\<close>: \<open>pos[v[m]] = m\<close> for every index \<open>m\<close>.
\<close>

definition inverse_of :: "int list \<Rightarrow> int list \<Rightarrow> bool" where
  "inverse_of v pos = (length pos = length v \<and> (\<forall>m<length v. pos ! nat (v ! m) = int m))"

text \<open>
  The adjacency lists \<open>adj0\<close> built from the parents form a graph without loops whose
  edges go both ways and stay within the elements.
\<close>

definition graph_ok :: "int list list \<Rightarrow> bool" where
  "graph_ok adj0 =
     (\<forall>u<length adj0. int u \<notin> set (adj0 ! u)
        \<and> (\<forall>w\<in>set (adj0 ! u). 0 \<le> w \<and> w < int (length adj0) \<and> int u \<in> set (adj0 ! nat w)))"

text \<open>
  The invariant of the main loop of the edge recombination: the adjacency list of an
  unvisited element holds its unvisited neighbours of \<open>adj0\<close>, once each, and the list
  of a visited element is empty.
\<close>

definition er_inv :: "int list list \<Rightarrow> int list list \<Rightarrow> int list \<Rightarrow> bool" where
  "er_inv adj0 adj unvisited =
     (length adj = length adj0 \<and> distinct unvisited
      \<and> set unvisited \<subseteq> int ` {0..<length adj0}
      \<and> (\<forall>u<length adj0. distinct (adj ! u)
            \<and> set (adj ! u)
                = (if int u \<in> set unvisited then set (adj0 ! u) \<inter> set unvisited else {})))"

text \<open>
  The neighbours of the element \<open>u\<close> in the cyclic view of the sequence \<open>v\<close>.
\<close>

definition neighbours :: "int list \<Rightarrow> nat \<Rightarrow> int set" where
  "neighbours v u =
     {w. \<exists>i<length v. v ! i = int u
          \<and> (w = v ! ((i + length v - 1) mod length v) \<or> w = v ! ((i + 1) mod length v))}"


section \<open>Properties\<close>

lemma np_index_less: "np_index n i = Some k \<Longrightarrow> k < n"
  by (auto simp: np_index_def split: if_splits)

subsection \<open>Cycle crossover on the inputs of the test file\<close>

text \<open>
  C2. The claim: \<open>cycle_crossover\<close> on the parents \<open>[1,4,6,2,0,3,5]\<close> and
  \<open>[6,1,4,2,5,0,3]\<close> returns a child equal to the first parent; on \<open>[1,4,6,2,0,3,5]\<close>
  and \<open>[6,1,4,0,2,5,3]\<close> it returns \<open>[1,4,6,0,2,3,5]\<close>, and \<open>[6,1,4,2,0,5,3]\<close> with the
  roles swapped. What the code computes on these inputs: in all three runs the exchange
  step copies the whole other parent into the child.
\<close>

theorem cycle_crossover_test_inputs:
  "x (snd (cycle_crossover (\<lambda>k. 0) 0 1
        [\<lparr>x = [1, 4, 6, 2, 0, 3, 5], obj_val = 0 :: int, obj_val_valid = True\<rparr>,
         \<lparr>x = [6, 1, 4, 2, 5, 0, 3], obj_val = 0, obj_val_valid = True\<rparr>]) ! 2)
     = [6, 1, 4, 2, 5, 0, 3]
   \<and> x (snd (cycle_crossover (\<lambda>k. 0) 0 1
        [\<lparr>x = [1, 4, 6, 2, 0, 3, 5], obj_val = 0 :: int, obj_val_valid = True\<rparr>,
         \<lparr>x = [6, 1, 4, 0, 2, 5, 3], obj_val = 0, obj_val_valid = True\<rparr>]) ! 2)
     = [6, 1, 4, 0, 2, 5, 3]
   \<and> x (snd (cycle_crossover (\<lambda>k. 0) 1 0
        [\<lparr>x = [1, 4, 6, 2, 0, 3, 5], obj_val = 0 :: int, obj_val_valid = True\<rparr>,
         \<lparr>x = [6, 1, 4, 0, 2, 5, 3], obj_val = 0, obj_val_valid = True\<rparr>]) ! 2)
     = [1, 4, 6, 2, 0, 3, 5]"
  by code_simp

text \<open>
  C3. The claim: the child carries the first parent's value on the cycles of one parity
  and the other parent's value on the cycles of the other parity. On the parents
  \<open>[1,0,3,2]\<close> and \<open>[0,1,2,3]\<close> the code labels the cycles \<open>[1,1,2,2]\<close> and returns the
  child \<open>[0,1,2,3]\<close>, which is the alternation for neither choice of the parity.
\<close>

theorem cycle_crossover_not_alternating:
  "detect_cycles [0, 1, 2, 3] [1, 0, 3, 2] [0..<4] 0 (replicate 4 0) = Inr [1, 1, 2, 2]
   \<and> cycle_crossover (\<lambda>k. 0) 0 1
        [\<lparr>x = [1, 0, 3, 2], obj_val = 0 :: int, obj_val_valid = True\<rparr>,
         \<lparr>x = [0, 1, 2, 3], obj_val = 0, obj_val_valid = True\<rparr>]
     = (Inr 2,
        [\<lparr>x = [1, 0, 3, 2], obj_val = 0, obj_val_valid = True\<rparr>,
         \<lparr>x = [0, 1, 2, 3], obj_val = 0, obj_val_valid = True\<rparr>,
         \<lparr>x = [0, 1, 2, 3], obj_val = 0, obj_val_valid = False\<rparr>])
   \<and> cycle_exchange_spec 0 [1, 1, 2, 2] [1, 0, 3, 2] [0, 1, 2, 3] = [1, 0, 2, 3]
   \<and> cycle_exchange_spec 1 [1, 1, 2, 2] [1, 0, 3, 2] [0, 1, 2, 3] = [0, 1, 3, 2]"
  by code_simp

subsection \<open>Best improvement with a best pair at position 0\<close>

text \<open>
  C4. The claim: in best-improvement mode, when a best pair was recorded (also one whose
  first position is 0), the search applies that swap again, sets the objective to the
  recorded best and returns true. On the solution \<open>[1,0]\<close> with the objective "the value
  at position 0" (smaller is better) and the scan order \<open>[0,1]\<close>, the pair \<open>(0,1)\<close> is
  recorded with the objective 0; the test of line 69 takes \<open>best_p1 = 0\<close> for false, and
  the search returns false with the sequence and the objective it started from.
\<close>

theorem best_improvement_position_zero:
  "shuffle [0..<2] [1] = ([0, 1], [])
   \<and> two_exchange_neighborhood_search two_exchange_delta_eval (\<lambda>s. x s ! 0) (<) 2 True [1]
        \<lparr>x = [1, 0], obj_val = 1 :: int, obj_val_valid = True\<rparr>
     = (Inr False,
        \<lparr>sol = \<lparr>x = [1, 0], obj_val = 1, obj_val_valid = True\<rparr>,
         best_obj = 0, best_p = Some (0, 1),
         calls = [(0, 1, True, True), (0, 1, False, True)]\<rparr>)"
  by code_simp

lemma length_shuffle_loop: "length (fst (shuffle_loop k a r)) = length a"
  by (induction k arbitrary: a r) (auto simp: Let_def split: prod.splits)

lemma length_shuffle: "length (fst (shuffle a r)) = length a"
  by (simp add: shuffle_def length_shuffle_loop)

lemma x_obj: "x (snd (obj calc s)) = x s"
  by (simp add: obj_def Let_def)

subsection \<open>Instances with fewer than two positions\<close>

text \<open>
  C6. For \<open>n < 2\<close> the search returns false in both modes, makes no call of the hook
  (the log stays empty) and leaves the sequence as it was.
\<close>

theorem search_small_instance:
  assumes "n < 2"
  shows "fst (two_exchange_neighborhood_search hook calc is_better_obj n best_improvement r s) = Inr False
    \<and> calls (snd (two_exchange_neighborhood_search hook calc is_better_obj n best_improvement r s)) = []
    \<and> x (sol (snd (two_exchange_neighborhood_search hook calc is_better_obj n best_improvement r s))) = x s"
proof -
  have e: "[0..<length (take (n - 1) order)] = []" for order :: "nat list"
    using assms by simp
  obtain v s0 where o: "obj calc s = (v, s0)"
    by (cases "obj calc s")
  with x_obj [of calc s] have "x s0 = x s" by simp
  with o show ?thesis
    unfolding two_exchange_neighborhood_search_def Let_def e by simp
qed

theorem search_small_instance_witness:
  "(1::nat) < 2
   \<and> two_exchange_neighborhood_search two_exchange_delta_eval (\<lambda>s. x s ! 0) (<) 1 True [3]
        \<lparr>x = [0], obj_val = 7 :: int, obj_val_valid = False\<rparr>
     = (Inr False, \<lparr>sol = \<lparr>x = [0], obj_val = 0, obj_val_valid = True\<rparr>,
          best_obj = 0, best_p = None, calls = []\<rparr>)"
proof -
  have "(1::nat) < 2" by simp
  note t = search_small_instance [OF this, of two_exchange_delta_eval "\<lambda>s. x s ! 0" "(<)" True "[3]"
      "\<lparr>x = [0], obj_val = 7 :: int, obj_val_valid = False\<rparr>"]
  have "two_exchange_neighborhood_search two_exchange_delta_eval (\<lambda>s. x s ! 0) (<) 1 True [3]
        \<lparr>x = [0], obj_val = 7 :: int, obj_val_valid = False\<rparr>
     = (Inr False, \<lparr>sol = \<lparr>x = [0], obj_val = 0, obj_val_valid = True\<rparr>,
          best_obj = 0, best_p = None, calls = []\<rparr>)"
    by code_simp
  with t show ?thesis by simp
qed

subsection \<open>The assertion on the revert call\<close>

lemma reverts_accepted_snoc:
  "reverts_accepted (cs @ [(p1, p2, u, ok)]) = (reverts_accepted cs \<and> (u \<or> ok))"
  by (simp add: reverts_accepted_def)

lemma revert_log:
  "reverts_accepted (calls st) \<Longrightarrow> log_inv (revert hook orig_obj p1 p2 st)"
  by (auto simp: revert_def log_inv_def call_hook_def Let_def reverts_accepted_snoc
      split: sum.splits prod.splits)

lemma attempt_log:
  "reverts_accepted (calls st) \<Longrightarrow>
   log_inv (attempt hook calc is_better_obj best_improvement orig_obj p1 p2 st)"
  unfolding attempt_def
  by (auto simp: call_hook_def Let_def reverts_accepted_snoc log_inv_def [of "Next _"]
      log_inv_def [of "Returned _ _"] log_inv_def [of "Raised _ _"]
      split: sum.splits prod.splits intro!: revert_log)

lemma inner_loop_log:
  "reverts_accepted (calls st) \<Longrightarrow>
   log_inv (inner_loop hook calc is_better_obj best_improvement orig_obj p1 ps st)"
proof (induction ps arbitrary: st)
  case Nil
  then show ?case by (simp add: log_inv_def)
next
  case (Cons p2 ps)
  from attempt_log [OF Cons.prems]
  have a: "log_inv (attempt hook calc is_better_obj best_improvement orig_obj p1 p2 st)" .
  show ?case
  proof (cases "attempt hook calc is_better_obj best_improvement orig_obj p1 p2 st")
    case (Next st')
    with a have "reverts_accepted (calls st')" by (simp add: log_inv_def)
    from Cons.IH [OF this] Next show ?thesis by simp
  qed (use a in \<open>simp_all add: log_inv_def\<close>)
qed

lemma outer_loop_log:
  "reverts_accepted (calls st) \<Longrightarrow>
   log_inv (outer_loop hook calc is_better_obj best_improvement orig_obj order idxs st)"
proof (induction idxs arbitrary: st)
  case Nil
  then show ?case by (simp add: log_inv_def)
next
  case (Cons idx idxs)
  let ?f = "inner_loop hook calc is_better_obj best_improvement orig_obj
             (order ! idx) (drop (idx + 1) order) st"
  from inner_loop_log [OF Cons.prems] have a: "log_inv ?f" .
  show ?case
  proof (cases ?f)
    case (Next st')
    with a have "reverts_accepted (calls st')" by (simp add: log_inv_def)
    from Cons.IH [OF this] Next show ?thesis by simp
  qed (use a in \<open>simp_all add: log_inv_def\<close>)
qed

text \<open>
  C10. Every revert call of the hook (the call with \<open>update_obj_val = False\<close> after
  swapping back) is asserted: if a logged revert call returned false, the search raised
  \<open>AssertionError\<close>, that call is the last hook call the search made (the scan did not
  go on), and all revert calls before it returned true. Python runs \<open>assert\<close> unless
  it is started with \<open>-O\<close>; the model is of the run with assertions.
\<close>

theorem revert_call_asserted:
  assumes "\<not> reverts_accepted
     (calls (snd (two_exchange_neighborhood_search hook calc is_better_obj n best_improvement r s)))"
  shows "fst (two_exchange_neighborhood_search hook calc is_better_obj n best_improvement r s)
      = Inl AssertionError
    \<and> (case last (calls (snd (two_exchange_neighborhood_search hook calc is_better_obj n
          best_improvement r s))) of (p1, p2, update_obj_val, ok) \<Rightarrow> \<not> update_obj_val \<and> \<not> ok)
    \<and> reverts_accepted (butlast (calls (snd (two_exchange_neighborhood_search hook calc
          is_better_obj n best_improvement r s))))"
proof -
  obtain v s0 where o: "obj calc s = (v, s0)"
    by (cases "obj calc s")
  let ?st0 = "\<lparr>sol = s0, best_obj = v, best_p = None, calls = []\<rparr>"
  let ?order = "fst (shuffle [0..<n] r)"
  let ?f = "outer_loop hook calc is_better_obj best_improvement v ?order
      [0..<length (take (n - 1) ?order)] ?st0"
  have "reverts_accepted (calls ?st0)" by (simp add: reverts_accepted_def)
  from outer_loop_log [OF this] have a: "log_inv ?f" .
  show ?thesis
  proof (cases ?f)
    case (Raised e st)
    with o have "two_exchange_neighborhood_search hook calc is_better_obj n best_improvement r s
        = (Inl e, st)"
      by (simp add: two_exchange_neighborhood_search_def Let_def)
    with assms a Raised show ?thesis by (auto simp: log_inv_def)
  next
    case (Returned b st)
    with o have "two_exchange_neighborhood_search hook calc is_better_obj n best_improvement r s
        = (Inr b, st)"
      by (simp add: two_exchange_neighborhood_search_def Let_def)
    with assms a Returned show ?thesis by (auto simp: log_inv_def)
  next
    case (Next st)
    with o have "calls (snd (two_exchange_neighborhood_search hook calc is_better_obj n
        best_improvement r s)) = calls st"
      by (auto simp: two_exchange_neighborhood_search_def Let_def split: option.splits sum.splits)
    with assms a Next show ?thesis by (auto simp: log_inv_def)
  qed
qed

theorem revert_call_asserted_witness:
  "\<not> reverts_accepted (calls (snd (two_exchange_neighborhood_search
        (\<lambda>p1 p2 update_obj_val allow_infeasible s. (update_obj_val, s)) (\<lambda>s. x s ! 0) (<) 2 True [1]
        \<lparr>x = [0, 1], obj_val = 0 :: int, obj_val_valid = True\<rparr>)))
   \<and> two_exchange_neighborhood_search
        (\<lambda>p1 p2 update_obj_val allow_infeasible s. (update_obj_val, s)) (\<lambda>s. x s ! 0) (<) 2 True [1]
        \<lparr>x = [0, 1], obj_val = 0 :: int, obj_val_valid = True\<rparr>
     = (Inl AssertionError,
        \<lparr>sol = \<lparr>x = [0, 1], obj_val = 0, obj_val_valid = True\<rparr>, best_obj = 0, best_p = None,
         calls = [(0, 1, True, True), (0, 1, False, False)]\<rparr>)"
proof -
  have e: "two_exchange_neighborhood_search
        (\<lambda>p1 p2 update_obj_val allow_infeasible s. (update_obj_val, s)) (\<lambda>s. x s ! 0) (<) 2 True [1]
        \<lparr>x = [0, 1], obj_val = 0 :: int, obj_val_valid = True\<rparr>
     = (Inl AssertionError,
        \<lparr>sol = \<lparr>x = [0, 1], obj_val = 0, obj_val_valid = True\<rparr>, best_obj = 0, best_p = None,
         calls = [(0, 1, True, True), (0, 1, False, False)]\<rparr>)"
    by code_simp
  then have h: "\<not> reverts_accepted (calls (snd (two_exchange_neighborhood_search
        (\<lambda>p1 p2 update_obj_val allow_infeasible s. (update_obj_val, s)) (\<lambda>s. x s ! 0) (<) 2 True [1]
        \<lparr>x = [0, 1], obj_val = 0 :: int, obj_val_valid = True\<rparr>)))"
    by (simp add: reverts_accepted_def)
  from revert_call_asserted [OF h] e h show ?thesis by simp
qed

lemma swap_back:
  "p1 < length v \<Longrightarrow> p2 < length v \<Longrightarrow>
   (v[p1 := v ! p2, p2 := v ! p1])[p1 := v[p1 := v ! p2, p2 := v ! p1] ! p2,
      p2 := v[p1 := v ! p2, p2 := v ! p1] ! p1] = v"
  by (cases "p1 = p2") (simp_all add: list_update_swap [of p1 p2] nth_list_update)

subsection \<open>Reverting a tentative swap\<close>

text \<open>
  C5, as stated, fails where the hook signals infeasible: lines 66-68 are inside the
  \<open>if\<close> of line 59, so after a false answer of the hook the search goes on without
  swapping back (the hook's docstring leaves reverting to the hook: "if feasible update
  other solution data accordingly, else revert"). With a hook that returns false and
  changes nothing, the attempt on \<open>[0,1]\<close> goes on with \<open>[1,0]\<close>, and so does the whole
  search.
\<close>

theorem rejected_swap_not_reverted:
  "attempt (\<lambda>p1 p2 update_obj_val allow_infeasible s. (False, s)) (\<lambda>s. x s ! 0) (<) True 0 0 1
      \<lparr>sol = \<lparr>x = [0, 1], obj_val = 0 :: int, obj_val_valid = True\<rparr>,
       best_obj = 0, best_p = None, calls = []\<rparr>
     = Next \<lparr>sol = \<lparr>x = [1, 0], obj_val = 0, obj_val_valid = True\<rparr>,
         best_obj = 0, best_p = None, calls = [(0, 1, True, False)]\<rparr>
   \<and> two_exchange_neighborhood_search
        (\<lambda>p1 p2 update_obj_val allow_infeasible s. (False, s)) (\<lambda>s. x s ! 0) (<) 2 True [1]
        \<lparr>x = [0, 1], obj_val = 0 :: int, obj_val_valid = True\<rparr>
     = (Inr False,
        \<lparr>sol = \<lparr>x = [1, 0], obj_val = 0, obj_val_valid = True\<rparr>,
         best_obj = 0, best_p = None, calls = [(0, 1, True, False)]\<rparr>)"
  by code_simp

text \<open>The scan loops of a search stay within \<open>search_states\<close>.\<close>

lemma inner_loop_states:
  "st \<in> search_states hook calc is_better_obj best_improvement s \<Longrightarrow>
   inner_loop hook calc is_better_obj best_improvement (fst (obj calc s)) p1 ps st = Next st' \<Longrightarrow>
   st' \<in> search_states hook calc is_better_obj best_improvement s"
proof (induction ps arbitrary: st)
  case Nil
  then show ?case by simp
next
  case (Cons p2 ps)
  show ?case
  proof (cases "attempt hook calc is_better_obj best_improvement (fst (obj calc s)) p1 p2 st")
    case (Next st1)
    from search_states.go_on [OF Cons.prems(1) Next]
    have "st1 \<in> search_states hook calc is_better_obj best_improvement s" .
    from Cons.IH [OF this] Cons.prems(2) Next show ?thesis by simp
  qed (use Cons.prems(2) in simp_all)
qed

lemma outer_loop_states:
  "st \<in> search_states hook calc is_better_obj best_improvement s \<Longrightarrow>
   outer_loop hook calc is_better_obj best_improvement (fst (obj calc s)) order idxs st = Next st' \<Longrightarrow>
   st' \<in> search_states hook calc is_better_obj best_improvement s"
proof (induction idxs arbitrary: st)
  case Nil
  then show ?case by simp
next
  case (Cons idx idxs)
  let ?f = "inner_loop hook calc is_better_obj best_improvement (fst (obj calc s))
      (order ! idx) (drop (idx + 1) order) st"
  show ?case
  proof (cases ?f)
    case (Next st1)
    from inner_loop_states [OF Cons.prems(1) Next]
    have "st1 \<in> search_states hook calc is_better_obj best_improvement s" .
    from Cons.IH [OF this] Cons.prems(2) Next show ?thesis by simp
  qed (use Cons.prems(2) in simp_all)
qed

lemma revert_restores:
  assumes p: "p1 < length (x (sol st))" "p2 < length (x (sol st))"
    and rev: "\<forall>q1 q2 t. x (snd (hook q1 q2 False False t)) = x t
        \<and> obj_val (snd (hook q1 q2 False False t)) = obj_val t"
  shows "\<exists>st' ok. revert hook orig_obj p1 p2 st
        = (if ok then Next st' else Raised AssertionError st')
      \<and> x (sol st') = (x (sol st))[p1 := x (sol st) ! p2, p2 := x (sol st) ! p1]
      \<and> obj_val (sol st') = orig_obj
      \<and> calls st' = calls st @ [(p1, p2, False, ok)]"
proof -
  let ?w = "(x (sol st))[p1 := x (sol st) ! p2, p2 := x (sol st) ! p1]"
  let ?s = "(sol st)\<lparr>x := ?w, obj_val := orig_obj\<rparr>"
  obtain ok s' where h: "hook p1 p2 False False ?s = (ok, s')"
    by (cases "hook p1 p2 False False ?s")
  from rev have "x (snd (hook p1 p2 False False ?s)) = x ?s"
    "obj_val (snd (hook p1 p2 False False ?s)) = obj_val ?s" by blast+
  with h have x': "x s' = ?w" and o': "obj_val s' = orig_obj" by simp_all
  let ?st' = "st\<lparr>sol := s', calls := calls st @ [(p1, p2, False, ok)]\<rparr>"
  from p h have "revert hook orig_obj p1 p2 st
      = (if ok then Next ?st' else Raised AssertionError ?st')"
    by (simp add: revert_def swap_def call_hook_def)
  with x' o' show ?thesis
    by (intro exI [of _ ?st'] exI [of _ ok]) simp
qed

text \<open>
  What a hook that follows its docstring keeps up: between two attempts of a search the
  cached objective is \<open>orig_obj\<close>, the objective the search started with.
\<close>

lemma search_states_obj_val:
  assumes rev: "\<forall>q1 q2 t. x (snd (hook q1 q2 False False t)) = x t
        \<and> obj_val (snd (hook q1 q2 False False t)) = obj_val t"
    and rej: "\<forall>q1 q2 t. \<not> fst (hook q1 q2 True False t) \<longrightarrow>
        x (snd (hook q1 q2 True False t)) = (x t)[q1 := x t ! q2, q2 := x t ! q1]
        \<and> obj_val (snd (hook q1 q2 True False t)) = obj_val t"
  shows "st \<in> search_states hook calc is_better_obj best_improvement s \<Longrightarrow>
    obj_val (sol st) = fst (obj calc s)"
proof (induction rule: search_states.induct)
  case start
  show ?case by (simp add: obj_def Let_def)
next
  case (go_on st p1 p2 st')
  let ?orig = "fst (obj calc s)"
  let ?w = "(x (sol st))[p1 := x (sol st) ! p2, p2 := x (sol st) ! p1]"
  let ?s = "(sol st)\<lparr>x := ?w\<rparr>"
  from go_on.hyps(2) have p: "p1 < length (x (sol st))" "p2 < length (x (sol st))"
    by (auto simp: attempt_def swap_def split: if_splits)
  obtain ok s1 where h1: "hook p1 p2 True False ?s = (ok, s1)"
    by (cases "hook p1 p2 True False ?s")
  let ?st1 = "st\<lparr>sol := s1, calls := calls st @ [(p1, p2, True, ok)]\<rparr>"
  show ?case
  proof (cases ok)
    case False
    with p h1 go_on.hyps(2) have "st' = ?st1"
      by (simp add: attempt_def swap_def call_hook_def)
    moreover from rej False h1 have "obj_val (snd (hook p1 p2 True False ?s)) = obj_val ?s"
      by (metis fst_conv)
    ultimately show ?thesis using h1 go_on.IH by simp
  next
    case True
    obtain new_obj s2 where o2: "obj calc s1 = (new_obj, s2)"
      by (cases "obj calc s1")
    obtain new_best s3 where o3: "obj calc s2 = (new_best, s3)"
      by (cases "obj calc s2")
    have r: "obj_val (sol st') = ?orig"
      if "revert hook ?orig p1 p2 st2 = Next st'" for st2
    proof -
      from that have q: "p1 < length (x (sol st2))" "p2 < length (x (sol st2))"
        by (auto simp: revert_def swap_def split: if_splits)
      from revert_restores [where hook = hook and st = st2 and ?p1.0 = p1 and ?p2.0 = p2
          and orig_obj = ?orig, OF q rev] that show ?thesis
        by (auto split: if_splits)
    qed
    from p h1 True o2 o3 go_on.hyps(2) show ?thesis
      by (auto simp: attempt_def swap_def call_hook_def Let_def split: if_splits intro: r)
  qed
qed

text \<open>
  C5, amended. Take a search with a hook that follows its docstring: a call that returns
  false has undone the swap and left the cached objective alone, a call that returns true
  leaves the sequence alone, and a revert call (\<open>update_obj_val = False\<close>) leaves the
  sequence and the cached objective alone. Then for every tentative swap of valid
  positions that is rejected (the hook signals infeasible, or the new objective is not
  better than the running best) or that is recorded as the best in best-improvement
  mode, the sequence and the cached objective are what they were before the attempt when
  the scan goes on. After a feasible answer it is the search that swaps back, resets
  \<open>obj_val\<close> and calls the hook with \<open>update_obj_val = False\<close>: the log grows by the
  tentative call and the revert call, and the scan goes on if the revert call returned
  true and ends with \<open>AssertionError\<close> if not. After an infeasible answer the search
  does nothing more: the log grows by the tentative call only, and the scan goes on.
\<close>

theorem rejected_swap_restored:
  assumes run: "st \<in> search_states hook calc is_better_obj best_improvement s"
    and p: "p1 < length (x (sol st))" "p2 < length (x (sol st))"
    and acc: "\<forall>q1 q2 t. fst (hook q1 q2 True False t) \<longrightarrow>
        x (snd (hook q1 q2 True False t)) = x t"
    and rev: "\<forall>q1 q2 t. x (snd (hook q1 q2 False False t)) = x t
        \<and> obj_val (snd (hook q1 q2 False False t)) = obj_val t"
    and rej: "\<forall>q1 q2 t. \<not> fst (hook q1 q2 True False t) \<longrightarrow>
        x (snd (hook q1 q2 True False t)) = (x t)[q1 := x t ! q2, q2 := x t ! q1]
        \<and> obj_val (snd (hook q1 q2 True False t)) = obj_val t"
    and rejected: "\<not> fst (tentative hook p1 p2 st) \<or> best_improvement
        \<or> \<not> is_better_obj (fst (obj calc (sol (snd (tentative hook p1 p2 st))))) (best_obj st)"
  shows "\<exists>st' ok.
      attempt hook calc is_better_obj best_improvement (fst (obj calc s)) p1 p2 st
        = (if ok then Next st' else Raised AssertionError st')
      \<and> x (sol st') = x (sol st) \<and> obj_val (sol st') = obj_val (sol st)
      \<and> calls st' = calls st
          @ (if fst (tentative hook p1 p2 st)
             then [(p1, p2, True, True), (p1, p2, False, ok)]
             else [(p1, p2, True, False)])
      \<and> (fst (tentative hook p1 p2 st) \<or> ok)"
proof -
  let ?orig = "fst (obj calc s)"
  let ?v = "x (sol st)"
  let ?w = "?v[p1 := ?v ! p2, p2 := ?v ! p1]"
  let ?s = "(sol st)\<lparr>x := ?w\<rparr>"
  from search_states_obj_val [OF rev rej run] have pre: "obj_val (sol st) = ?orig" .
  have restored: "?w[p1 := ?w ! p2, p2 := ?w ! p1] = ?v"
    using p by (rule swap_back)
  obtain ok1 s1 where h1: "hook p1 p2 True False ?s = (ok1, s1)"
    by (cases "hook p1 p2 True False ?s")
  let ?st1 = "st\<lparr>sol := s1, calls := calls st @ [(p1, p2, True, ok1)]\<rparr>"
  from h1 have t: "tentative hook p1 p2 st = (ok1, ?st1)"
    by (simp add: tentative_def call_hook_def)
  show ?thesis
  proof (cases ok1)
    case False
    from rej have "\<not> fst (hook p1 p2 True False ?s) \<longrightarrow>
        x (snd (hook p1 p2 True False ?s)) = (x ?s)[p1 := x ?s ! p2, p2 := x ?s ! p1]
        \<and> obj_val (snd (hook p1 p2 True False ?s)) = obj_val ?s"
      by blast
    with h1 False restored have s1: "x s1 = ?v" "obj_val s1 = obj_val (sol st)" by simp_all
    from p h1 False
    have "attempt hook calc is_better_obj best_improvement ?orig p1 p2 st = Next ?st1"
      by (simp add: attempt_def swap_def call_hook_def)
    with s1 t False show ?thesis
      by (intro exI [of _ ?st1] exI [of _ True]) simp
  next
    case True
    from acc have "fst (hook p1 p2 True False ?s) \<longrightarrow> x (snd (hook p1 p2 True False ?s)) = x ?s"
      by blast
    with h1 True have x1: "x s1 = ?w" by simp
    obtain new_obj s2 where o2: "obj calc s1 = (new_obj, s2)"
      by (cases "obj calc s1")
    from x_obj [of calc s1] o2 x1 have x2: "x s2 = ?w" by simp
    obtain new_best s3 where o3: "obj calc s2 = (new_best, s3)"
      by (cases "obj calc s2")
    from x_obj [of calc s2] o3 x2 have x3: "x s3 = ?w" by simp
    from rejected t True o2
    have na: "best_improvement \<or> \<not> is_better_obj new_obj (best_obj st)" by simp
    let ?st2 = "if is_better_obj new_obj (best_obj st)
      then ?st1\<lparr>sol := s3, best_obj := new_best, best_p := Some (p1, p2)\<rparr>
      else ?st1\<lparr>sol := s2\<rparr>"
    have a: "attempt hook calc is_better_obj best_improvement ?orig p1 p2 st
        = revert hook ?orig p1 p2 ?st2"
      using p h1 True o2 o3 na by (auto simp: attempt_def swap_def call_hook_def)
    have x2': "x (sol ?st2) = ?w" and c2: "calls ?st2 = calls st @ [(p1, p2, True, True)]"
      using x2 x3 True by simp_all
    from p x2' have q: "p1 < length (x (sol ?st2))" "p2 < length (x (sol ?st2))" by simp_all
    from revert_restores [where hook = hook and st = ?st2 and ?p1.0 = p1 and ?p2.0 = p2
        and orig_obj = ?orig, OF q rev]
    obtain st' ok where r:
      "revert hook ?orig p1 p2 ?st2 = (if ok then Next st' else Raised AssertionError st')"
      "x (sol st') = (x (sol ?st2))[p1 := x (sol ?st2) ! p2, p2 := x (sol ?st2) ! p1]"
      "obj_val (sol st') = ?orig" "calls st' = calls ?st2 @ [(p1, p2, False, ok)]"
      by blast
    from r(2) have "x (sol st') = ?v" unfolding x2' restored .
    moreover from r(4) have "calls st' = calls st @ [(p1, p2, True, True), (p1, p2, False, ok)]"
      unfolding c2 by simp
    ultimately show ?thesis using a r(1,3) pre t True
      by (intro exI [of _ st'] exI [of _ ok]) simp
  qed
qed

text \<open>
  The theorem at two hooks on \<open>[0,1]\<close>: the default hook (the swap is accepted, is not
  better, and the search reverts it), and a hook that rejects every move and undoes it
  (the search does nothing more).
\<close>

theorem rejected_swap_restored_witness:
  "attempt two_exchange_delta_eval (\<lambda>s. x s ! 0) (<) False 0 0 1
      \<lparr>sol = \<lparr>x = [0, 1], obj_val = 0 :: int, obj_val_valid = True\<rparr>,
       best_obj = 0, best_p = None, calls = []\<rparr>
     = Next \<lparr>sol = \<lparr>x = [0, 1], obj_val = 0, obj_val_valid = True\<rparr>,
         best_obj = 0, best_p = None, calls = [(0, 1, True, True), (0, 1, False, True)]\<rparr>
   \<and> attempt (\<lambda>p1 p2 update_obj_val allow_infeasible s.
          if update_obj_val then (False, s\<lparr>x := (x s)[p1 := x s ! p2, p2 := x s ! p1]\<rparr>)
          else (True, s))
        (\<lambda>s. x s ! 0) (<) False 0 0 1
      \<lparr>sol = \<lparr>x = [0, 1], obj_val = 0 :: int, obj_val_valid = True\<rparr>,
       best_obj = 0, best_p = None, calls = []\<rparr>
     = Next \<lparr>sol = \<lparr>x = [0, 1], obj_val = 0, obj_val_valid = True\<rparr>,
         best_obj = 0, best_p = None, calls = [(0, 1, True, False)]\<rparr>"
proof -
  let ?s = "\<lparr>x = [0, 1], obj_val = 0 :: int, obj_val_valid = True\<rparr>"
  let ?st = "\<lparr>sol = ?s, best_obj = 0 :: int, best_p = None, calls = []\<rparr>"
  let ?calc = "\<lambda>s :: int solution. x s ! 0"
  let ?undo = "\<lambda>(p1 :: nat) (p2 :: nat) update_obj_val (allow_infeasible :: bool) (s :: int solution).
          if update_obj_val then (False, s\<lparr>x := (x s)[p1 := x s ! p2, p2 := x s ! p1]\<rparr>)
          else (True, s)"
  have o: "obj ?calc ?s = (0, ?s)" by (simp add: obj_def)
  have p: "0 < length (x (sol ?st))" "1 < length (x (sol ?st))" by simp_all
  from search_states.start [of ?calc ?s two_exchange_delta_eval "(<)" False]
  have run: "?st \<in> search_states two_exchange_delta_eval ?calc (<) False ?s"
    unfolding o by simp
  have acc: "\<forall>q1 q2 t. fst (two_exchange_delta_eval q1 q2 True False (t :: int solution)) \<longrightarrow>
        x (snd (two_exchange_delta_eval q1 q2 True False t)) = x t"
    by (simp add: two_exchange_delta_eval_def invalidate_def)
  have rev: "\<forall>q1 q2 t. x (snd (two_exchange_delta_eval q1 q2 False False (t :: int solution))) = x t
        \<and> obj_val (snd (two_exchange_delta_eval q1 q2 False False t)) = obj_val t"
    by (simp add: two_exchange_delta_eval_def)
  have rej: "\<forall>q1 q2 t. \<not> fst (two_exchange_delta_eval q1 q2 True False (t :: int solution)) \<longrightarrow>
        x (snd (two_exchange_delta_eval q1 q2 True False t)) = (x t)[q1 := x t ! q2, q2 := x t ! q1]
        \<and> obj_val (snd (two_exchange_delta_eval q1 q2 True False t)) = obj_val t"
    by (simp add: two_exchange_delta_eval_def)
  have n: "\<not> fst (tentative two_exchange_delta_eval 0 1 ?st) \<or> False
      \<or> \<not> fst (obj ?calc (sol (snd (tentative two_exchange_delta_eval 0 1 ?st)))) < best_obj ?st"
    by (simp add: tentative_def call_hook_def two_exchange_delta_eval_def invalidate_def obj_def)
  from rejected_swap_restored [where ?p1.0 = 0 and ?p2.0 = 1 and st = ?st
      and hook = two_exchange_delta_eval and best_improvement = False and is_better_obj = "(<)"
      and calc = ?calc and s = ?s, OF run p acc rev rej n]
  have "\<exists>st' ok. attempt two_exchange_delta_eval ?calc (<) False (fst (obj ?calc ?s)) 0 1 ?st
        = (if ok then Next st' else Raised AssertionError st')
      \<and> x (sol st') = x (sol ?st) \<and> obj_val (sol st') = obj_val (sol ?st)"
    by blast
  moreover have "attempt two_exchange_delta_eval ?calc (<) False 0 0 1 ?st
     = Next \<lparr>sol = \<lparr>x = [0, 1], obj_val = 0, obj_val_valid = True\<rparr>,
         best_obj = 0, best_p = None, calls = [(0, 1, True, True), (0, 1, False, True)]\<rparr>"
    by code_simp
  moreover from search_states.start [of ?calc ?s ?undo "(<)" False]
  have run': "?st \<in> search_states ?undo ?calc (<) False ?s"
    unfolding o by simp
  have acc': "\<forall>q1 q2 t. fst (?undo q1 q2 True False t) \<longrightarrow> x (snd (?undo q1 q2 True False t)) = x t"
    by simp
  have rev': "\<forall>q1 q2 t. x (snd (?undo q1 q2 False False t)) = x t
        \<and> obj_val (snd (?undo q1 q2 False False t)) = obj_val t"
    by simp
  have rej': "\<forall>q1 q2 t. \<not> fst (?undo q1 q2 True False t) \<longrightarrow>
        x (snd (?undo q1 q2 True False t)) = (x t)[q1 := x t ! q2, q2 := x t ! q1]
        \<and> obj_val (snd (?undo q1 q2 True False t)) = obj_val t"
    by simp
  have n': "\<not> fst (tentative ?undo 0 1 ?st) \<or> False
      \<or> \<not> fst (obj ?calc (sol (snd (tentative ?undo 0 1 ?st)))) < best_obj ?st"
    by (simp add: tentative_def call_hook_def)
  from rejected_swap_restored [where ?p1.0 = 0 and ?p2.0 = 1 and st = ?st
      and hook = ?undo and best_improvement = False and is_better_obj = "(<)"
      and calc = ?calc and s = ?s, OF run' p acc' rev' rej' n']
  have "\<exists>st' ok. attempt ?undo ?calc (<) False (fst (obj ?calc ?s)) 0 1 ?st
        = (if ok then Next st' else Raised AssertionError st')
      \<and> x (sol st') = x (sol ?st) \<and> obj_val (sol st') = obj_val (sol ?st)"
    by blast
  moreover have "attempt ?undo ?calc (<) False 0 0 1 ?st
     = Next \<lparr>sol = \<lparr>x = [0, 1], obj_val = 0, obj_val_valid = True\<rparr>,
         best_obj = 0, best_p = None, calls = [(0, 1, True, False)]\<rparr>"
    by code_simp
  ultimately show ?thesis by simp
qed

lemma randbelow_less: "0 < k \<Longrightarrow> fst (randbelow k r) < k"
  by (simp add: randbelow_def split: list.splits)

lemma randrange_range:
  "0 < n \<Longrightarrow> \<exists>v r'. randrange n r = Inr (v, r') \<and> 0 \<le> v \<and> v < n"
proof -
  assume n: "0 < n"
  obtain d r' where d: "randbelow (nat n) r = (d, r')"
    by (cases "randbelow (nat n) r")
  with randbelow_less [of "nat n" r] n have "int d < n" by simp
  with n d show ?thesis by (simp add: randrange_def)
qed

lemma randrange_attains:
  "0 \<le> v \<Longrightarrow> v < n \<Longrightarrow> randrange n (nat v # r) = Inr (v, r)"
  by (simp add: randrange_def randbelow_def nat_mod_distrib [symmetric])

subsection \<open>The cut points of the partially mapped crossover\<close>

text \<open>
  C8, as stated, fails for the second cut point: it is drawn by
  \<open>random.randrange(size - 1)\<close>, so for \<open>size = 2\<close> the value \<open>1\<close> of \<open>[0, 2)\<close> is not
  a possible second draw, whatever the generator delivers.
\<close>

theorem pmx_second_draw_range: "\<not> (\<exists>r b. pmx_draws 2 r = Inr (b, 1))"
  by (auto simp: pmx_draws_def randrange_def randbelow_def split: list.splits)

text \<open>
  C8, amended. For \<open>n \<ge> 2\<close> both draws succeed; the first lies in \<open>[0, n)\<close> and the
  second in \<open>[0, n-1)\<close>, and every value of these ranges is the draw for some
  generator; if the two draws are equal, the second is incremented by one; and the cut
  points the loop runs over satisfy \<open>0 \<le> begin < end \<le> n - 1\<close>. (The model has no
  probabilities: "uniformly" is read as the range the draw is taken from.)
\<close>

theorem pmx_cut_points:
  assumes "2 \<le> n"
  shows "(\<exists>b e0. pmx_draws n r = Inr (b, e0) \<and> 0 \<le> b \<and> b < n \<and> 0 \<le> e0 \<and> e0 < n - 1
        \<and> pmx_cuts n r = Inr (pmx_order (b, e0))
        \<and> (b = e0 \<longrightarrow> pmx_order (b, e0) = (b, e0 + 1))
        \<and> 0 \<le> fst (pmx_order (b, e0))
        \<and> fst (pmx_order (b, e0)) < snd (pmx_order (b, e0))
        \<and> snd (pmx_order (b, e0)) \<le> n - 1)
    \<and> (\<forall>v. 0 \<le> v \<and> v < n \<longrightarrow> (\<exists>r' e0. pmx_draws n r' = Inr (v, e0)))
    \<and> (\<forall>v. 0 \<le> v \<and> v < n - 1 \<longrightarrow> (\<exists>r' b. pmx_draws n r' = Inr (b, v)))"
proof (intro conjI allI impI)
  from assms have "0 < n" by simp
  from randrange_range [OF this, of r]
  obtain b r1 where b: "randrange n r = Inr (b, r1)" "0 \<le> b" "b < n" by blast
  from assms have "0 < n - 1" by simp
  from randrange_range [OF this, of r1]
  obtain e0 r2 where e: "randrange (n - 1) r1 = Inr (e0, r2)" "0 \<le> e0" "e0 < n - 1" by blast
  from b e have d: "pmx_draws n r = Inr (b, e0)"
    by (simp add: pmx_draws_def)
  from b e d show "\<exists>b e0. pmx_draws n r = Inr (b, e0) \<and> 0 \<le> b \<and> b < n \<and> 0 \<le> e0 \<and> e0 < n - 1
        \<and> pmx_cuts n r = Inr (pmx_order (b, e0))
        \<and> (b = e0 \<longrightarrow> pmx_order (b, e0) = (b, e0 + 1))
        \<and> 0 \<le> fst (pmx_order (b, e0))
        \<and> fst (pmx_order (b, e0)) < snd (pmx_order (b, e0))
        \<and> snd (pmx_order (b, e0)) \<le> n - 1"
    by (intro exI [of _ b] exI [of _ e0]) (simp add: pmx_cuts_def pmx_order_def)
next
  fix v :: int
  assume v: "0 \<le> v \<and> v < n"
  then have 1: "randrange n (nat v # [0]) = Inr (v, [0])"
    by (simp add: randrange_attains)
  from assms have "0 < n - 1" by simp
  from randrange_range [OF this, of "[0]"]
  obtain e0 r2 where "randrange (n - 1) [0] = Inr (e0, r2)" by blast
  with 1 have "pmx_draws n (nat v # [0]) = Inr (v, e0)"
    by (simp add: pmx_draws_def)
  then show "\<exists>r' e0. pmx_draws n r' = Inr (v, e0)" by blast
next
  fix v :: int
  assume v: "0 \<le> v \<and> v < n - 1"
  from assms have "randrange n (0 # [nat v]) = Inr (0, [nat v])"
    using randrange_attains [of 0 n "[nat v]"] by simp
  moreover from v have "randrange (n - 1) [nat v] = Inr (v, [])"
    by (simp add: randrange_attains)
  ultimately have "pmx_draws n (0 # [nat v]) = Inr (0, v)"
    by (simp add: pmx_draws_def)
  then show "\<exists>r' b. pmx_draws n r' = Inr (b, v)" by blast
qed

theorem pmx_cut_points_witness:
  "(2::int) \<le> 5 \<and> pmx_draws 5 [3, 3] = Inr (3, 3) \<and> pmx_cuts 5 [3, 3] = Inr (3, 4)
   \<and> pmx_cuts 5 [2, 7] = Inr (2, 3) \<and> pmx_cuts 5 [4, 1] = Inr (1, 4)"
proof -
  have h: "(2::int) \<le> 5" by simp
  have "pmx_draws 5 [3, 3] = Inr (3, 3) \<and> pmx_cuts 5 [3, 3] = Inr (3, 4)
   \<and> pmx_cuts 5 [2, 7] = Inr (2, 3) \<and> pmx_cuts 5 [4, 1] = Inr (1, 4)"
    by (simp add: pmx_cuts_def pmx_draws_def pmx_order_def randrange_def randbelow_def)
  moreover from pmx_cut_points [OF h, of "[3, 3]"]
  have "\<exists>b e0. pmx_draws 5 [3, 3] = Inr (b, e0) \<and> b < 5 \<and> e0 < 5 - 1"
    by (elim conjE exE, intro exI conjI)
  ultimately show ?thesis by simp
qed

subsection \<open>The crossovers write to the child only\<close>

lemma set_x_frame: "take c (set_x h c v) = take c h \<and> length (set_x h c v) = length h"
  by (simp add: set_x_def)

lemma exchange_frame:
  "exchange other child pos is h = (r, h') \<Longrightarrow> take child h' = take child h \<and> length h' = length h"
proof (induction "is" arbitrary: h)
  case Nil
  then show ?case by simp
next
  case (Cons i "is")
  then show ?case
    by (auto simp: set_x_frame split: if_splits sum.splits dest!: Cons.IH)
qed

lemma pmx_loop_frame:
  "pmx_loop other child is pos h = (r, h') \<Longrightarrow> take child h' = take child h \<and> length h' = length h"
proof (induction "is" arbitrary: pos h)
  case Nil
  then show ?case by simp
next
  case (Cons i "is")
  then show ?case
    by (auto simp: set_x_frame Let_def split: if_splits option.splits dest!: Cons.IH)
qed

lemma er_loop_frame:
  "er_loop child is adj_lists unvisited elem rg h = (r, h') \<Longrightarrow>
   take child h' = take child h \<and> length h' = length h"
proof (induction "is" arbitrary: adj_lists unvisited elem rg h)
  case Nil
  then show ?case by simp
next
  case (Cons i "is")
  then show ?case
    by (auto simp: set_x_frame Let_def split: if_splits option.splits sum.splits prod.splits
        dest!: Cons.IH)
qed

lemma cycle_crossover_frame: "take (length h) (snd (cycle_crossover junk self other h)) = h"
proof -
  have "take (length h) h' = h"
    if "exchange other (length h) pos is (h @ [h ! self]) = (r, h')" for pos "is" r h'
    using exchange_frame [OF that] by simp
  then show ?thesis
    by (auto simp: cycle_crossover_def copy_def Let_def split: sum.splits prod.splits)
qed

lemma partially_mapped_crossover_frame:
  "take (length h) (snd (partially_mapped_crossover junk self other r h)) = h"
proof -
  have "take (length h) h' = h"
    if "pmx_loop other (length h) is pos (h @ [h ! self]) = (res, h')" for pos "is" res h'
    using pmx_loop_frame [OF that] by simp
  then show ?thesis
    by (auto simp: partially_mapped_crossover_def copy_def Let_def split: sum.splits prod.splits)
qed

lemma edge_recombination_frame:
  "take (length h) (snd (edge_recombination self other r h)) = h"
proof -
  have "take (length h) h' = h"
    if "er_loop (length h) is a u e rg (h @ [h ! self]) = (res, h')" for "is" a u e rg res h'
    using er_loop_frame [OF that] by simp
  then show ?thesis
    by (auto simp: edge_recombination_def copy_def Let_def set_x_frame
        split: sum.splits prod.splits option.splits)
qed

lemma take_nth_unchanged: "take n h' = h \<Longrightarrow> a < length h \<Longrightarrow> h' ! a = h ! a"
  by (metis length_take min.strict_boundedE nth_take)

text \<open>
  C7. For every store, every pair of parents in it, every content of the uninitialised
  array and every draw sequence, each of the three crossovers leaves every object that
  was in the store as it was, the two parents among them, whether it returns a child or
  raises; what it adds is the new child at the next free address.
\<close>

theorem crossover_parents_unchanged:
  assumes "self < length h" and "other < length h"
  shows "take (length h) (snd (partially_mapped_crossover junk self other r h)) = h
    \<and> snd (partially_mapped_crossover junk self other r h) ! self = h ! self
    \<and> snd (partially_mapped_crossover junk self other r h) ! other = h ! other
    \<and> take (length h) (snd (cycle_crossover junk self other h)) = h
    \<and> snd (cycle_crossover junk self other h) ! self = h ! self
    \<and> snd (cycle_crossover junk self other h) ! other = h ! other
    \<and> take (length h) (snd (edge_recombination self other r h)) = h
    \<and> snd (edge_recombination self other r h) ! self = h ! self
    \<and> snd (edge_recombination self other r h) ! other = h ! other"
  using assms
    take_nth_unchanged [OF partially_mapped_crossover_frame [of h junk self other r]]
    take_nth_unchanged [OF cycle_crossover_frame [of h junk self other]]
    take_nth_unchanged [OF edge_recombination_frame [of h self other r]]
  by (simp add: partially_mapped_crossover_frame cycle_crossover_frame edge_recombination_frame)


theorem crossover_parents_unchanged_witness:
  "(0::nat) < length [\<lparr>x = [0, 1, 2, 3, 4], obj_val = 0 :: int, obj_val_valid = True\<rparr>,
                     \<lparr>x = [4, 3, 2, 1, 0], obj_val = 0, obj_val_valid = True\<rparr>]
   \<and> (1::nat) < length [\<lparr>x = [0, 1, 2, 3, 4], obj_val = 0 :: int, obj_val_valid = True\<rparr>,
                       \<lparr>x = [4, 3, 2, 1, 0], obj_val = 0, obj_val_valid = True\<rparr>]
   \<and> partially_mapped_crossover (\<lambda>k. 0) 0 1 [3, 1]
        [\<lparr>x = [0, 1, 2, 3, 4], obj_val = 0 :: int, obj_val_valid = True\<rparr>,
         \<lparr>x = [4, 3, 2, 1, 0], obj_val = 0, obj_val_valid = True\<rparr>]
     = (Inr 2,
        [\<lparr>x = [0, 1, 2, 3, 4], obj_val = 0, obj_val_valid = True\<rparr>,
         \<lparr>x = [4, 3, 2, 1, 0], obj_val = 0, obj_val_valid = True\<rparr>,
         \<lparr>x = [0, 3, 2, 1, 4], obj_val = 0, obj_val_valid = False\<rparr>])
   \<and> cycle_crossover (\<lambda>k. 0) 0 1
        [\<lparr>x = [0, 1, 2, 3, 4], obj_val = 0 :: int, obj_val_valid = True\<rparr>,
         \<lparr>x = [4, 3, 2, 1, 0], obj_val = 0, obj_val_valid = True\<rparr>]
     = (Inr 2,
        [\<lparr>x = [0, 1, 2, 3, 4], obj_val = 0, obj_val_valid = True\<rparr>,
         \<lparr>x = [4, 3, 2, 1, 0], obj_val = 0, obj_val_valid = True\<rparr>,
         \<lparr>x = [4, 3, 2, 1, 0], obj_val = 0, obj_val_valid = False\<rparr>])
   \<and> edge_recombination 0 1 [2, 1, 0]
        [\<lparr>x = [0, 1, 2, 3, 4], obj_val = 0 :: int, obj_val_valid = True\<rparr>,
         \<lparr>x = [4, 3, 2, 1, 0], obj_val = 0, obj_val_valid = True\<rparr>]
     = (Inr 2,
        [\<lparr>x = [0, 1, 2, 3, 4], obj_val = 0, obj_val_valid = True\<rparr>,
         \<lparr>x = [4, 3, 2, 1, 0], obj_val = 0, obj_val_valid = True\<rparr>,
         \<lparr>x = [2, 3, 4, 0, 1], obj_val = 0, obj_val_valid = False\<rparr>])"
proof -
  let ?h = "[\<lparr>x = [0, 1, 2, 3, 4], obj_val = 0 :: int, obj_val_valid = True\<rparr>,
             \<lparr>x = [4, 3, 2, 1, 0], obj_val = 0, obj_val_valid = True\<rparr>]"
  have p: "0 < length ?h" "1 < length ?h" by simp_all
  note t = crossover_parents_unchanged [OF p, of "\<lambda>k. 0" "[3, 1]"]
  have e: "partially_mapped_crossover (\<lambda>k. 0) 0 1 [3, 1] ?h
     = (Inr 2, ?h @ [\<lparr>x = [0, 3, 2, 1, 4], obj_val = 0, obj_val_valid = False\<rparr>])"
    "cycle_crossover (\<lambda>k. 0) 0 1 ?h
     = (Inr 2, ?h @ [\<lparr>x = [4, 3, 2, 1, 0], obj_val = 0, obj_val_valid = False\<rparr>])"
    "edge_recombination 0 1 [2, 1, 0] ?h
     = (Inr 2, ?h @ [\<lparr>x = [2, 3, 4, 0, 1], obj_val = 0, obj_val_valid = False\<rparr>])"
    by code_simp+
  from t e show ?thesis by simp
qed

subsection \<open>Permutations are preserved: initialisation and search\<close>

lemma is_permutation_mset:
  "mset v' = mset v \<Longrightarrow> is_permutation v \<Longrightarrow> is_permutation v'"
  unfolding is_permutation_def
  by (metis mset_eq_setD mset_eq_length)

lemma is_permutation_distinct: "is_permutation v \<Longrightarrow> distinct v"
proof -
  assume "is_permutation v"
  then have "card (set v) = card (set (map int [0..<length v]))"
    by (simp add: is_permutation_def)
  also have "\<dots> = length v"
    by (simp add: card_image)
  finally show "distinct v" by (rule card_distinct)
qed

lemma is_permutation_range:
  "is_permutation v \<Longrightarrow> k < length v \<Longrightarrow> 0 \<le> v ! k \<and> v ! k < int (length v)"
proof -
  assume p: "is_permutation v" and k: "k < length v"
  then have "v ! k \<in> set (map int [0..<length v])"
    unfolding is_permutation_def by (metis nth_mem)
  then show ?thesis by auto
qed

lemma is_permutation_index:
  "is_permutation v \<Longrightarrow> 0 \<le> e \<Longrightarrow> e < int (length v) \<Longrightarrow> \<exists>k<length v. v ! k = e"
proof -
  assume p: "is_permutation v" and e: "0 \<le> e" "e < int (length v)"
  then have "e \<in> set (map int [0..<length v])"
    by (auto simp: image_iff intro!: bexI [of _ "nat e"])
  with p have "e \<in> set v" by (simp add: is_permutation_def)
  then show ?thesis by (simp add: in_set_conv_nth)
qed

lemma mset_shuffle_loop:
  "k \<le> length a - 1 \<Longrightarrow> mset (fst (shuffle_loop k a r)) = mset a"
proof (induction k arbitrary: a r)
  case 0
  then show ?case by simp
next
  case (Suc k)
  obtain j r' where j: "randbelow (Suc (Suc k)) r = (j, r')"
    by (cases "randbelow (Suc (Suc k)) r")
  with randbelow_less [of "Suc (Suc k)" r] have "j < Suc (Suc k)" by simp
  with Suc.prems have lt: "j < length a" "Suc k < length a" by simp_all
  then have m: "mset (a[Suc k := a ! j, j := a ! Suc k]) = mset a"
    by (simp add: mset_swap)
  from Suc.prems have "k \<le> length (a[Suc k := a ! j, j := a ! Suc k]) - 1" by simp
  from Suc.IH [OF this] j m show ?case by simp
qed

lemma mset_shuffle: "mset (fst (shuffle a r)) = mset a"
  by (simp add: shuffle_def mset_shuffle_loop)

lemma initialize_permutation:
  "is_permutation (x s) \<Longrightarrow> is_permutation (x (initialize k r s))"
  by (simp add: initialize_def invalidate_def is_permutation_mset [OF mset_shuffle])

lemma mset_swap_result: "swap v p1 p2 = Inr w \<Longrightarrow> mset w = mset v"
  by (auto simp: swap_def mset_swap split: if_splits)

lemma call_hook_x:
  "\<forall>q1 q2 u a s. x (snd (hook q1 q2 u a s)) = x s \<Longrightarrow>
   x (sol (snd (call_hook hook p1 p2 u st))) = x (sol st)"
  by (simp add: call_hook_def split: prod.splits) (metis snd_conv)

lemma revert_elements:
  assumes "\<forall>q1 q2 u a s. x (snd (hook q1 q2 u a s)) = x s"
    and "mset (x (sol st)) = mset v"
  shows "same_elements v (revert hook orig_obj p1 p2 st)"
proof (cases "swap (x (sol st)) p1 p2")
  case (Inl e)
  with assms show ?thesis by (simp add: revert_def same_elements_def)
next
  case (Inr w)
  let ?st = "st\<lparr>sol := (sol st)\<lparr>x := w, obj_val := orig_obj\<rparr>\<rparr>"
  from call_hook_x [OF assms(1), of p1 p2 False ?st]
  have "x (sol (snd (call_hook hook p1 p2 False ?st))) = w" by simp
  with Inr mset_swap_result [OF Inr] assms(2) show ?thesis
    by (auto simp: revert_def same_elements_def Let_def split: prod.splits)
qed

lemma attempt_elements:
  assumes "\<forall>q1 q2 u a s. x (snd (hook q1 q2 u a s)) = x s"
    and "mset (x (sol st)) = mset v"
  shows "same_elements v (attempt hook calc is_better_obj best_improvement orig_obj p1 p2 st)"
proof (cases "swap (x (sol st)) p1 p2")
  case (Inl e)
  with assms show ?thesis by (simp add: attempt_def same_elements_def)
next
  case (Inr w)
  let ?st = "st\<lparr>sol := (sol st)\<lparr>x := w\<rparr>\<rparr>"
  obtain ok st1 where c: "call_hook hook p1 p2 True ?st = (ok, st1)"
    by (cases "call_hook hook p1 p2 True ?st")
  from call_hook_x [OF assms(1), of p1 p2 True ?st] c have x1: "x (sol st1) = w" by simp
  with mset_swap_result [OF Inr] assms(2) have m1: "mset (x (sol st1)) = mset v" by simp
  obtain new_obj s2 where o2: "obj calc (sol st1) = (new_obj, s2)"
    by (cases "obj calc (sol st1)")
  from x_obj [of calc "sol st1"] o2 have x2: "x s2 = x (sol st1)" by simp
  obtain new_best s3 where o3: "obj calc s2 = (new_best, s3)"
    by (cases "obj calc s2")
  from x_obj [of calc s2] o3 have x3: "x s3 = x s2" by simp
  have r2: "same_elements v (revert hook orig_obj p1 p2 (st1\<lparr>sol := s2\<rparr>))"
    by (rule revert_elements [OF assms(1)]) (simp add: x2 m1)
  have r3: "same_elements v (revert hook orig_obj p1 p2
      (st1\<lparr>sol := s3, best_obj := new_best, best_p := Some (p1, p2)\<rparr>))"
    by (rule revert_elements [OF assms(1)]) (simp add: x3 x2 m1)
  from Inr c o2 o3 r2 r3 m1 x2 show ?thesis
    by (simp add: attempt_def Let_def same_elements_def [of v "Next _"]
        same_elements_def [of v "Returned _ _"])
qed

lemma inner_loop_elements:
  assumes "\<forall>q1 q2 u a s. x (snd (hook q1 q2 u a s)) = x s"
  shows "mset (x (sol st)) = mset v \<Longrightarrow>
    same_elements v (inner_loop hook calc is_better_obj best_improvement orig_obj p1 ps st)"
proof (induction ps arbitrary: st)
  case Nil
  then show ?case by (simp add: same_elements_def)
next
  case (Cons p2 ps)
  from attempt_elements [OF assms Cons.prems]
  have a: "same_elements v (attempt hook calc is_better_obj best_improvement orig_obj p1 p2 st)" .
  show ?case
  proof (cases "attempt hook calc is_better_obj best_improvement orig_obj p1 p2 st")
    case (Next st')
    with a have "mset (x (sol st')) = mset v" by (simp add: same_elements_def)
    from Cons.IH [OF this] Next show ?thesis by simp
  qed (use a in \<open>simp_all add: same_elements_def\<close>)
qed

lemma outer_loop_elements:
  assumes "\<forall>q1 q2 u a s. x (snd (hook q1 q2 u a s)) = x s"
  shows "mset (x (sol st)) = mset v \<Longrightarrow>
    same_elements v (outer_loop hook calc is_better_obj best_improvement orig_obj order idxs st)"
proof (induction idxs arbitrary: st)
  case Nil
  then show ?case by (simp add: same_elements_def)
next
  case (Cons idx idxs)
  let ?f = "inner_loop hook calc is_better_obj best_improvement orig_obj
             (order ! idx) (drop (idx + 1) order) st"
  from inner_loop_elements [OF assms Cons.prems] have a: "same_elements v ?f" .
  show ?case
  proof (cases ?f)
    case (Next st')
    with a have "mset (x (sol st')) = mset v" by (simp add: same_elements_def)
    from Cons.IH [OF this] Next show ?thesis by simp
  qed (use a in \<open>simp_all add: same_elements_def\<close>)
qed

lemma search_elements:
  assumes "\<forall>q1 q2 u a s. x (snd (hook q1 q2 u a s)) = x s"
  shows "mset (x (sol (snd (two_exchange_neighborhood_search hook calc is_better_obj n
      best_improvement r s)))) = mset (x s)"
proof -
  obtain v s0 where o: "obj calc s = (v, s0)"
    by (cases "obj calc s")
  with x_obj [of calc s] have x0: "x s0 = x s" by simp
  let ?st0 = "\<lparr>sol = s0, best_obj = v, best_p = None, calls = []\<rparr>"
  let ?order = "fst (shuffle [0..<n] r)"
  let ?f = "outer_loop hook calc is_better_obj best_improvement v ?order
      [0..<length (take (n - 1) ?order)] ?st0"
  have "mset (x (sol ?st0)) = mset (x s)" by (simp add: x0)
  from outer_loop_elements [OF assms this] have a: "same_elements (x s) ?f" .
  show ?thesis
  proof (cases ?f)
    case (Raised e st)
    with o a show ?thesis
      by (simp add: two_exchange_neighborhood_search_def Let_def same_elements_def)
  next
    case (Returned b st)
    with o a show ?thesis
      by (simp add: two_exchange_neighborhood_search_def Let_def same_elements_def)
  next
    case (Next st)
    with a have m: "mset (x (sol st)) = mset (x s)" by (simp add: same_elements_def)
    with o Next show ?thesis
      by (auto simp: two_exchange_neighborhood_search_def Let_def
          split: option.splits sum.splits dest: mset_swap_result)
  qed
qed

subsection \<open>The position index\<close>

lemma np_index_nat: "0 \<le> i \<Longrightarrow> i < int n \<Longrightarrow> np_index n i = Some (nat i)"
  by (simp add: np_index_def)

lemma build_pos_inverse:
  assumes "distinct es" and "\<forall>e\<in>set es. 0 \<le> e \<and> e < int (length pos)"
  shows "\<exists>pos'. build_pos es i pos = Inr pos' \<and> length pos' = length pos
    \<and> (\<forall>m<length es. pos' ! nat (es ! m) = int (i + m))
    \<and> (\<forall>q<length pos. int q \<notin> set es \<longrightarrow> pos' ! q = pos ! q)"
  using assms
proof (induction es arbitrary: i pos)
  case Nil
  then show ?case by simp
next
  case (Cons e es)
  let ?pos1 = "pos[nat e := int i]"
  from Cons.prems have e: "0 \<le> e" "e < int (length pos)" "e \<notin> set es" by simp_all
  from Cons.prems have "distinct es" "\<forall>e\<in>set es. 0 \<le> e \<and> e < int (length ?pos1)" by simp_all
  from Cons.IH [OF this, of "Suc i"]
  obtain pos' where p: "build_pos es (Suc i) ?pos1 = Inr pos'" "length pos' = length pos"
    "\<forall>m<length es. pos' ! nat (es ! m) = int (Suc i + m)"
    "\<forall>q<length pos. int q \<notin> set es \<longrightarrow> pos' ! q = ?pos1 ! q"
    by auto
  from e have b: "build_pos (e # es) i pos = Inr pos'"
    by (simp add: np_index_nat p(1))
  from e p(4) have first: "pos' ! nat e = int i" by simp
  have "\<forall>m<length (e # es). pos' ! nat ((e # es) ! m) = int (i + m)"
  proof (intro allI impI)
    fix m assume "m < length (e # es)"
    then show "pos' ! nat ((e # es) ! m) = int (i + m)"
      using first p(3) by (cases m) simp_all
  qed
  moreover have "\<forall>q<length pos. int q \<notin> set (e # es) \<longrightarrow> pos' ! q = pos ! q"
  proof (intro allI impI)
    fix q assume q: "q < length pos" "int q \<notin> set (e # es)"
    then have "q \<noteq> nat e" using e by auto
    with q p(4) show "pos' ! q = pos ! q" by simp
  qed
  ultimately show ?case using b p(2) by blast
qed

lemma build_pos_permutation:
  assumes "is_permutation v"
  shows "\<exists>pos. build_pos v 0 (np_empty junk (length v)) = Inr pos \<and> inverse_of v pos"
proof -
  have "\<forall>e\<in>set v. 0 \<le> e \<and> e < int (length (np_empty junk (length v)))"
    using assms is_permutation_range by (auto simp: np_empty_def in_set_conv_nth)
  from build_pos_inverse [OF is_permutation_distinct [OF assms] this, of 0]
  show ?thesis by (auto simp: inverse_of_def np_empty_def)
qed

lemma inverse_of_swap:
  assumes v: "is_permutation v" and inv: "inverse_of v pos"
    and i: "i < length v" and k: "k < length v" and ne: "i \<noteq> k"
  shows "inverse_of (v[i := v ! k, k := v ! i]) (pos[nat (v ! k) := int i, nat (v ! i) := int k])"
proof -
  let ?n = "length v"
  from is_permutation_distinct [OF v] have d: "distinct v" .
  have r: "0 \<le> v ! m \<and> v ! m < int ?n" if "m < ?n" for m
    using is_permutation_range [OF v that] .
  have inj: "nat (v ! a) = nat (v ! b) \<longleftrightarrow> a = b" if "a < ?n" "b < ?n" for a b
  proof
    assume "nat (v ! a) = nat (v ! b)"
    with r [OF that(1)] r [OF that(2)] have "v ! a = v ! b" by (metis int_nat_eq)
    with d that show "a = b" by (simp add: nth_eq_iff_index_eq)
  qed simp
  from inv have len: "length pos = ?n" and p: "\<And>m. m < ?n \<Longrightarrow> pos ! nat (v ! m) = int m"
    by (simp_all add: inverse_of_def)
  have lt: "nat (v ! m) < length pos" if "m < ?n" for m
    using r [OF that] len by (simp add: nat_less_iff)
  show ?thesis
    unfolding inverse_of_def
  proof (intro conjI allI impI)
    show "length (pos[nat (v ! k) := int i, nat (v ! i) := int k]) = length (v[i := v ! k, k := v ! i])"
      by (simp add: len)
  next
    fix m assume "m < length (v[i := v ! k, k := v ! i])"
    then have m: "m < ?n" by simp
    consider "m = i" | "m = k" | "m \<noteq> i" "m \<noteq> k" by blast
    then show "pos[nat (v ! k) := int i, nat (v ! i) := int k] ! nat (v[i := v ! k, k := v ! i] ! m)
        = int m"
    proof cases
      case 1
      with i k ne lt [OF k] inj [OF k i] show ?thesis by (simp add: nth_list_update)
    next
      case 2
      with i k ne lt [OF i] show ?thesis by (simp add: nth_list_update)
    next
      case 3
      with m i k inj [OF m i] inj [OF m k] p [OF m] show ?thesis by (simp add: nth_list_update)
    qed
  qed
qed

lemma inverse_of_lookup:
  assumes v: "is_permutation v" and inv: "inverse_of v pos"
    and e: "0 \<le> e" "e < int (length v)"
  shows "\<exists>k<length v. pos ! nat e = int k \<and> v ! k = e"
proof -
  from is_permutation_index [OF v e] obtain k where "k < length v" "v ! k = e" by blast
  with inv show ?thesis by (auto simp: inverse_of_def)
qed

subsection \<open>The partially mapped crossover returns a permutation\<close>

lemma set_x_same: "c < length h \<Longrightarrow> x (set_x h c v ! c) = v"
  by (simp add: set_x_def)

lemma set_x_other: "a \<noteq> c \<Longrightarrow> set_x h c v ! a = h ! a"
  by (simp add: set_x_def)

lemma length_set_x: "length (set_x h c v) = length h"
  by (simp add: set_x_def)

lemma is_permutation_swap:
  "is_permutation v \<Longrightarrow> i < length v \<Longrightarrow> k < length v \<Longrightarrow>
   is_permutation (v[i := v ! k, k := v ! i])"
  by (rule is_permutation_mset [of _ v]) (simp_all add: mset_swap)

lemma pmx_loop_step:
  assumes c: "child < length h" and ne: "child \<noteq> other"
    and cp: "is_permutation (x (h ! child))" and op: "is_permutation (x (h ! other))"
    and len: "length (x (h ! other)) = length (x (h ! child))"
    and inv: "inverse_of (x (h ! child)) pos"
    and i: "0 \<le> i" "i < int (length (x (h ! child)))"
  shows "\<exists>pos' h'. pmx_loop other child (i # is) pos h = pmx_loop other child is pos' h'
    \<and> length h' = length h \<and> h' ! other = h ! other
    \<and> is_permutation (x (h' ! child)) \<and> length (x (h' ! child)) = length (x (h ! child))
    \<and> inverse_of (x (h' ! child)) pos'"
proof -
  let ?cx = "x (h ! child)" and ?ox = "x (h ! other)"
  let ?n = "length ?cx"
  let ?elem = "?ox ! nat i"
  from i have ni: "nat i < ?n" by (simp add: nat_less_iff)
  from i len have io: "np_index (length ?ox) i = Some (nat i)" by (simp add: np_index_nat)
  from is_permutation_range [OF op, of "nat i"] ni len
  have e: "0 \<le> ?elem" "?elem < int ?n" by simp_all
  from inv have lp: "length pos = ?n" by (simp add: inverse_of_def)
  from e lp have pe: "np_index (length pos) ?elem = Some (nat ?elem)" by (simp add: np_index_nat)
  from inverse_of_lookup [OF cp inv e]
  obtain k where k: "k < ?n" "pos ! nat ?elem = int k" "?cx ! k = ?elem" by blast
  show ?thesis
  proof (cases "i = int k")
    case True
    with io pe k have "pmx_loop other child (i # is) pos h = pmx_loop other child is pos h"
      by (simp add: Let_def)
    with cp inv show ?thesis by blast
  next
    case False
    then have nk: "nat i \<noteq> k" using i by auto
    let ?elem_2 = "?cx ! nat i"
    let ?h1 = "set_x h child (?cx[nat i := ?elem])"
    let ?h2 = "set_x ?h1 child ((x (?h1 ! child))[k := ?elem_2])"
    let ?pos1 = "pos[nat ?elem := i]"
    let ?pos2 = "?pos1[nat ?elem_2 := int k]"
    from i have ic: "np_index ?n i = Some (nat i)" by (simp add: np_index_nat)
    have x1: "x (?h1 ! child) = ?cx[nat i := ?elem]"
      using c by (simp add: set_x_same)
    from k have jc: "np_index (length (x (?h1 ! child))) (int k) = Some k"
      by (simp add: x1 np_index_nat)
    from is_permutation_range [OF cp ni] lp
    have pe2: "np_index (length ?pos1) ?elem_2 = Some (nat ?elem_2)"
      by (simp add: np_index_nat)
    have step: "pmx_loop other child (i # is) pos h = pmx_loop other child is ?pos2 ?h2"
      using io pe k(2) False ic jc pe2 by (simp add: Let_def)
    have x2: "x (?h2 ! child) = ?cx[nat i := ?cx ! k, k := ?cx ! nat i]"
      using c k(3) by (simp add: set_x_same length_set_x x1)
    have p2: "?pos2 = pos[nat (?cx ! k) := int (nat i), nat (?cx ! nat i) := int k]"
      using i k(3) by simp
    have "is_permutation (x (?h2 ! child))"
      unfolding x2 by (rule is_permutation_swap [OF cp ni k(1)])
    moreover have "inverse_of (x (?h2 ! child)) ?pos2"
      unfolding x2 p2 by (rule inverse_of_swap [OF cp inv ni k(1) nk])
    moreover have "?h2 ! other = h ! other"
      using ne by (simp add: set_x_other)
    moreover have "length ?h2 = length h" "length (x (?h2 ! child)) = ?n"
      by (simp_all add: length_set_x x2)
    ultimately show ?thesis using step by blast
  qed
qed

lemma pmx_loop_permutation:
  assumes "child < length h" and "child \<noteq> other"
    and "is_permutation (x (h ! child))" and "is_permutation (x (h ! other))"
    and "length (x (h ! other)) = length (x (h ! child))"
    and "inverse_of (x (h ! child)) pos"
    and "\<forall>i\<in>set is. 0 \<le> i \<and> i < int (length (x (h ! child)))"
  shows "\<exists>pos' h'. pmx_loop other child is pos h = (Inr pos', h')
    \<and> is_permutation (x (h' ! child)) \<and> length (x (h' ! child)) = length (x (h ! child))"
  using assms
proof (induction "is" arbitrary: pos h)
  case Nil
  then show ?case by simp
next
  case (Cons i "is")
  from Cons.prems(7) have i: "0 \<le> i" "i < int (length (x (h ! child)))" by simp_all
  from pmx_loop_step [OF Cons.prems(1-6) i, of "is"]
  obtain pos' h' where s: "pmx_loop other child (i # is) pos h = pmx_loop other child is pos' h'"
    "length h' = length h" "h' ! other = h ! other"
    "is_permutation (x (h' ! child))" "length (x (h' ! child)) = length (x (h ! child))"
    "inverse_of (x (h' ! child)) pos'"
    by blast
  have "\<exists>pos'' h''. pmx_loop other child is pos' h' = (Inr pos'', h'')
    \<and> is_permutation (x (h'' ! child)) \<and> length (x (h'' ! child)) = length (x (h' ! child))"
  proof (rule Cons.IH)
    show "child < length h'" using s(2) Cons.prems(1) by simp
    show "child \<noteq> other" by fact
    show "is_permutation (x (h' ! child))" by fact
    show "is_permutation (x (h' ! other))" using s(3) Cons.prems(4) by simp
    show "length (x (h' ! other)) = length (x (h' ! child))"
      using s(3) s(5) Cons.prems(5) by simp
    show "inverse_of (x (h' ! child)) pos'" by fact
    show "\<forall>i\<in>set is. 0 \<le> i \<and> i < int (length (x (h' ! child)))"
      using Cons.prems(7) s(5) by simp
  qed
  with s(1) s(5) show ?case by auto
qed

lemma pmx_cuts_bounds:
  assumes "2 \<le> n"
  shows "\<exists>b e. pmx_cuts n r = Inr (b, e) \<and> 0 \<le> b \<and> b < e \<and> e \<le> n - 1"
proof -
  from assms have "0 < n" by simp
  from randrange_range [OF this, of r]
  obtain b r1 where b: "randrange n r = Inr (b, r1)" "0 \<le> b" "b < n" by blast
  from assms have "0 < n - 1" by simp
  from randrange_range [OF this, of r1]
  obtain e0 r2 where e: "randrange (n - 1) r1 = Inr (e0, r2)" "0 \<le> e0" "e0 < n - 1" by blast
  from b e show ?thesis
    by (auto simp: pmx_cuts_def pmx_draws_def pmx_order_def)
qed

lemma pmx_permutation:
  assumes self: "self < length h" and other: "other < length h"
    and sp: "is_permutation (x (h ! self))" and op: "is_permutation (x (h ! other))"
    and len: "length (x (h ! other)) = length (x (h ! self))"
    and n: "2 \<le> length (x (h ! self))"
  shows "\<exists>h'. partially_mapped_crossover junk self other r h = (Inr (length h), h')
    \<and> is_permutation (x (h' ! length h)) \<and> length (x (h' ! length h)) = length (x (h ! self))"
proof -
  let ?n = "length (x (h ! self))"
  let ?h1 = "h @ [h ! self]"
  from n have "2 \<le> int ?n" by simp
  from pmx_cuts_bounds [OF this, of r]
  obtain b' e' where cuts: "pmx_cuts (int ?n) r = Inr (b', e')"
    and range: "0 \<le> b'" "e' \<le> int ?n - 1"
    by blast
  have c1: "x (?h1 ! length h) = x (h ! self)" by simp
  from build_pos_permutation [OF sp, of junk]
  obtain pos where pos: "build_pos (x (h ! self)) 0 (np_empty junk ?n) = Inr pos"
    "inverse_of (x (h ! self)) pos" by blast
  have "\<exists>pos' h'. pmx_loop other (length h) [b'..e' - 1] pos ?h1 = (Inr pos', h')
    \<and> is_permutation (x (h' ! length h))
    \<and> length (x (h' ! length h)) = length (x (?h1 ! length h))"
  proof (rule pmx_loop_permutation)
    show "length h < length ?h1" by simp
    show "length h \<noteq> other" using other by simp
    show "is_permutation (x (?h1 ! length h))" using sp by simp
    show "is_permutation (x (?h1 ! other))" using op other by (simp add: nth_append)
    show "length (x (?h1 ! other)) = length (x (?h1 ! length h))"
      using len other by (simp add: nth_append)
    show "inverse_of (x (?h1 ! length h)) pos" using pos(2) by simp
    show "\<forall>i\<in>set [b'..e' - 1]. 0 \<le> i \<and> i < int (length (x (?h1 ! length h)))"
      using range by auto
  qed
  then obtain pos' h' where l: "pmx_loop other (length h) [b'..e' - 1] pos ?h1 = (Inr pos', h')"
    "is_permutation (x (h' ! length h))" "length (x (h' ! length h)) = ?n"
    by auto
  from pmx_loop_frame [OF l(1)] have "length h' = Suc (length h)" by simp
  with cuts pos l show ?thesis
    by (simp add: partially_mapped_crossover_def copy_def invalidate_def)
qed

subsection \<open>The cycle crossover returns a copy of a parent\<close>

lemma inverse_of_permutation:
  assumes v: "is_permutation v" and inv: "inverse_of v pos"
  shows "is_permutation pos"
proof -
  let ?n = "length v"
  from inv have len: "length pos = ?n" and p: "\<And>m. m < ?n \<Longrightarrow> pos ! nat (v ! m) = int m"
    by (simp_all add: inverse_of_def)
  have "int ` {0..<?n} \<subseteq> set pos"
  proof
    fix e assume "e \<in> int ` {0..<?n}"
    then obtain m where m: "m < ?n" "e = int m" by auto
    from is_permutation_range [OF v m(1)] len have "nat (v ! m) < length pos"
      by (simp add: nat_less_iff)
    then have "pos ! nat (v ! m) \<in> set pos" by (rule nth_mem)
    with p [OF m(1)] m(2) show "e \<in> set pos" by simp
  qed
  moreover have "card (set pos) \<le> card (int ` {0..<?n})"
    using card_length [of pos] len by (simp add: card_image)
  ultimately have "int ` {0..<?n} = set pos"
    by (intro card_seteq) simp_all
  with len show ?thesis by (simp add: is_permutation_def)
qed

lemma walk_cycle_ok:
  assumes "length grp = n" and "is_permutation other_x" and "length other_x = n"
    and "is_permutation pos" and "length pos = n" and "0 \<le> j" and "j < int n"
  shows "\<exists>grp'. walk_cycle other_x pos g j grp = Inr grp' \<and> length grp' = n"
  using assms
proof (induction other_x pos g j grp rule: walk_cycle.induct)
  case (1 other_x pos g j grp)
  from "1.prems" have nj: "nat j < n" by (simp add: nat_less_iff)
  from "1.prems" have jn: "np_index (length grp) j = Some (nat j)"
    and jo: "np_index (length other_x) j = Some (nat j)"
    by (simp_all add: np_index_nat)
  from is_permutation_range [OF "1.prems"(2), of "nat j"] nj "1.prems"(3)
  have e: "0 \<le> other_x ! nat j" "other_x ! nat j < int n" by simp_all
  with "1.prems"(5) have pe: "np_index (length pos) (other_x ! nat j) = Some (nat (other_x ! nat j))"
    by (simp add: np_index_nat)
  from e have "nat (other_x ! nat j) < n" by (simp add: nat_less_iff)
  with is_permutation_range [OF "1.prems"(4), of "nat (other_x ! nat j)"] "1.prems"(5)
  have j': "0 \<le> pos ! nat (other_x ! nat j)" "pos ! nat (other_x ! nat j) < int n" by simp_all
  show ?case
  proof (cases "grp ! nat j \<noteq> 0")
    case True
    with jn "1.prems"(1) show ?thesis by (simp add: walk_cycle.simps [of other_x pos g j grp])
  next
    case False
    have "\<exists>grp'. walk_cycle other_x pos g (pos ! nat (other_x ! nat j))
        (grp[nat j := int g + 1]) = Inr grp' \<and> length grp' = n"
      by (rule "1.IH" [OF jn False jo pe]) (use "1.prems" j' in simp_all)
    with jn jo pe False show ?thesis by (simp add: walk_cycle.simps [of other_x pos g j grp])
  qed
qed

lemma detect_cycles_ok:
  assumes "is_permutation other_x" and "length other_x = n"
    and "is_permutation pos" and "length pos = n"
  shows "length grp = n \<Longrightarrow> \<forall>i\<in>set is. i < n \<Longrightarrow>
    \<exists>grp'. detect_cycles other_x pos is g grp = Inr grp' \<and> length grp' = n"
proof (induction "is" arbitrary: g grp)
  case Nil
  then show ?case by simp
next
  case (Cons i "is")
  from Cons.prems have i: "i < n" and rest: "\<forall>i\<in>set is. i < n" by simp_all
  show ?case
  proof (cases "grp ! i \<noteq> 0")
    case True
    with Cons.IH [OF Cons.prems(1) rest, of g] show ?thesis by simp
  next
    case False
    from walk_cycle_ok [OF Cons.prems(1) assms(1-4), of "int i" g] i
    obtain grp' where w: "walk_cycle other_x pos g (int i) grp = Inr grp'" "length grp' = n"
      by auto
    from Cons.IH [OF w(2) rest, of "Suc g"] w(1) False show ?thesis by simp
  qed
qed

lemma np_take_ok:
  "\<forall>p\<in>set ps. 0 \<le> p \<and> p < int (length a) \<Longrightarrow> np_take a ps = Inr (map (\<lambda>p. a ! nat p) ps)"
  by (induction ps) (simp_all add: np_index_nat)

lemma np_put_ok:
  "\<forall>p\<in>set ps. 0 \<le> p \<and> p < int (length a) \<Longrightarrow>
   np_put a (zip ps (map f ps))
     = Inr (map (\<lambda>q. if int q \<in> set ps then f (int q) else a ! q) [0..<length a])"
proof (induction ps arbitrary: a)
  case Nil
  then show ?case by (simp add: map_nth)
next
  case (Cons p ps)
  from Cons.prems have p: "0 \<le> p" "p < int (length a)" by simp_all
  then have np: "nat p < length a" by (simp add: nat_less_iff)
  from Cons.prems have "\<forall>q\<in>set ps. 0 \<le> q \<and> q < int (length (a[nat p := f p]))" by simp
  from Cons.IH [OF this] p np show ?case
    by (auto simp: np_index_nat nth_list_update)
qed

lemma np_put_permutation:
  assumes "is_permutation pos" and "length pos = length a" and "length b = length a"
  shows "np_put a (zip pos (map (\<lambda>p. b ! nat p) pos)) = Inr b"
proof -
  from assms(1,2) have s: "set pos = int ` {0..<length a}"
    by (simp add: is_permutation_def)
  then have "\<forall>p\<in>set pos. 0 \<le> p \<and> p < int (length a)" by auto
  from np_put_ok [OF this, of "\<lambda>p. b ! nat p"]
  have "np_put a (zip pos (map (\<lambda>p. b ! nat p) pos))
      = Inr (map (\<lambda>q. if int q \<in> set pos then b ! nat (int q) else a ! q) [0..<length a])" .
  moreover have "map (\<lambda>q. if int q \<in> set pos then b ! nat (int q) else a ! q) [0..<length a] = b"
    using s assms(3) by (intro nth_equalityI) auto
  ultimately show ?thesis by simp
qed

lemma exchange_permutation:
  assumes "child < length h" and "child \<noteq> other"
    and "is_permutation pos" and "length pos = length (x (h ! other))"
    and "length (x (h ! child)) = length (x (h ! other))"
  shows "\<exists>h'. exchange other child pos is h = (Inr (), h')
    \<and> (x (h' ! child) = x (h ! child) \<or> x (h' ! child) = x (h ! other))"
  using assms
proof (induction "is" arbitrary: h)
  case Nil
  then show ?case by simp
next
  case (Cons i "is")
  show ?case
  proof (cases "x (h ! child) ! i mod 2 = 1")
    case False
    with Cons.IH [OF Cons.prems] show ?thesis by simp
  next
    case True
    let ?ox = "x (h ! other)"
    let ?h1 = "set_x h child ?ox"
    from Cons.prems(3,4) have "set pos = int ` {0..<length ?ox}"
      by (simp add: is_permutation_def)
    then have "\<forall>p\<in>set pos. 0 \<le> p \<and> p < int (length ?ox)" by auto
    from np_take_ok [OF this]
    have t: "np_take ?ox pos = Inr (map (\<lambda>p. ?ox ! nat p) pos)" .
    have p: "np_put (x (h ! child)) (zip pos (map (\<lambda>p. ?ox ! nat p) pos)) = Inr ?ox"
      by (rule np_put_permutation [OF Cons.prems(3)]) (simp_all add: Cons.prems(4,5))
    from True t p have step: "exchange other child pos (i # is) h = exchange other child pos is ?h1"
      by simp
    have x1: "x (?h1 ! child) = ?ox" "?h1 ! other = h ! other"
      using Cons.prems(1,2) by (simp_all add: set_x_same set_x_other)
    have "\<exists>h'. exchange other child pos is ?h1 = (Inr (), h')
      \<and> (x (h' ! child) = x (?h1 ! child) \<or> x (h' ! child) = x (?h1 ! other))"
    proof (rule Cons.IH)
      show "child < length ?h1" using Cons.prems(1) by (simp add: length_set_x)
      show "child \<noteq> other" by fact
      show "is_permutation pos" by fact
      show "length pos = length (x (?h1 ! other))" using Cons.prems(4) by (simp add: x1)
      show "length (x (?h1 ! child)) = length (x (?h1 ! other))" by (simp add: x1)
    qed
    with step show ?thesis by (auto simp: x1)
  qed
qed

lemma cycle_crossover_result:
  assumes self: "self < length h" and other: "other < length h"
    and sp: "is_permutation (x (h ! self))" and op: "is_permutation (x (h ! other))"
    and len: "length (x (h ! other)) = length (x (h ! self))"
  shows "\<exists>h'. cycle_crossover junk self other h = (Inr (length h), h')
    \<and> (x (h' ! length h) = x (h ! self) \<or> x (h' ! length h) = x (h ! other))"
proof -
  let ?n = "length (x (h ! self))"
  let ?h1 = "h @ [h ! self]"
  from build_pos_permutation [OF sp, of junk]
  obtain pos where pos: "build_pos (x (h ! self)) 0 (np_empty junk ?n) = Inr pos"
    "inverse_of (x (h ! self)) pos" by blast
  from inverse_of_permutation [OF sp pos(2)] have pp: "is_permutation pos" .
  from pos(2) have lp: "length pos = ?n" by (simp add: inverse_of_def)
  from detect_cycles_ok [OF op len pp lp, of "replicate ?n 0" "[0..<?n]" 0]
  obtain grp where grp: "detect_cycles (x (h ! other)) pos [0..<?n] 0 (replicate ?n 0) = Inr grp"
    by auto
  have "\<exists>h'. exchange other (length h) pos [0..<?n] ?h1 = (Inr (), h')
    \<and> (x (h' ! length h) = x (?h1 ! length h) \<or> x (h' ! length h) = x (?h1 ! other))"
    by (rule exchange_permutation) (use other pp lp len in \<open>simp_all add: nth_append\<close>)
  then obtain h' where e: "exchange other (length h) pos [0..<?n] ?h1 = (Inr (), h')"
    "x (h' ! length h) = x (h ! self) \<or> x (h' ! length h) = x (h ! other)"
    using other by (auto simp: nth_append)
  from exchange_frame [OF e(1)] have "length h' = Suc (length h)" by simp
  with pos grp e show ?thesis
    by (simp add: cycle_crossover_def copy_def invalidate_def)
qed

subsection \<open>The main loop of the edge recombination\<close>

lemma choice_member:
  "xs \<noteq> [] \<Longrightarrow> \<exists>sel r'. choice xs r = Inr (sel, r') \<and> sel \<in> set xs"
proof -
  assume ne: "xs \<noteq> []"
  obtain d r' where d: "randbelow (length xs) r = (d, r')"
    by (cases "randbelow (length xs) r")
  with randbelow_less [of "length xs" r] ne have "d < length xs" by simp
  with ne d show ?thesis by (simp add: choice_def)
qed

lemma select_candidates_result:
  "\<forall>e2\<in>set es. 0 \<le> e2 \<and> e2 < int (length adj_lists) \<Longrightarrow> cs \<noteq> [] \<Longrightarrow>
   \<exists>cs'. select_candidates adj_lists degree es cs = Inr cs' \<and> cs' \<noteq> []
     \<and> set cs' \<subseteq> set cs \<union> set es"
proof (induction es arbitrary: cs)
  case Nil
  then show ?case by simp
next
  case (Cons e2 es)
  from Cons.prems have e2: "np_index (length adj_lists) e2 = Some (nat e2)"
    and rest: "\<forall>e2\<in>set es. 0 \<le> e2 \<and> e2 < int (length adj_lists)"
    by (simp_all add: np_index_nat)
  from Cons.IH [OF rest, of "[e2]"] Cons.IH [OF rest, of "cs @ [e2]"] Cons.IH [OF rest Cons.prems(2)]
  show ?case by (auto simp: e2 Let_def)
qed

lemma remove_elem_from:
  assumes e: "e < length adj"
    and noself: "int e \<notin> set (adj ! e)"
    and dist: "distinct (adj ! e)"
    and sym: "\<forall>j\<in>set (adj ! e). 0 \<le> j \<and> j < int (length adj) \<and> int e \<in> set (adj ! nat j)"
  shows "k \<le> length (adj ! e) \<Longrightarrow> length adj' = length adj \<Longrightarrow>
    \<forall>u<length adj. adj' ! u
       = (if int u \<in> set (take k (adj ! e)) then remove1 (int e) (adj ! u) else adj ! u) \<Longrightarrow>
    \<exists>adj1. remove_elem (int e) e k adj' = Inr adj1 \<and> length adj1 = length adj
      \<and> (\<forall>u<length adj. adj1 ! u
            = (if int u \<in> set (adj ! e) then remove1 (int e) (adj ! u) else adj ! u))"
proof (induction "length (adj ! e) - k" arbitrary: k adj')
  case 0
  then have k: "k = length (adj ! e)" by simp
  from "0.prems"(3) e noself have same: "adj' ! e = adj ! e" by (auto dest: in_set_takeD)
  have "\<not> k < length (adj' ! e)" using k same by simp
  then have "remove_elem (int e) e k adj' = Inr adj'"
    by (subst remove_elem.simps) simp
  with k "0.prems" show ?case by simp
next
  case (Suc d)
  then have k: "k < length (adj ! e)" by simp
  from Suc.prems(3) e noself have same: "adj' ! e = adj ! e" by (auto dest: in_set_takeD)
  let ?j = "adj ! e ! k"
  from k have jm: "?j \<in> set (adj ! e)" by simp
  with sym have j: "0 \<le> ?j" "?j < int (length adj)" "int e \<in> set (adj ! nat ?j)" by simp_all
  then have nj: "nat ?j < length adj" by (simp add: nat_less_iff)
  from dist k have fresh: "?j \<notin> set (take k (adj ! e))"
    by (auto simp: in_set_conv_nth nth_eq_iff_index_eq)
  with Suc.prems(3) nj j(1) have aj: "adj' ! nat ?j = adj ! nat ?j" by simp
  let ?adj'' = "adj'[nat ?j := remove1 (int e) (adj' ! nat ?j)]"
  have inv: "\<forall>u<length adj. ?adj'' ! u
       = (if int u \<in> set (take (Suc k) (adj ! e)) then remove1 (int e) (adj ! u) else adj ! u)"
  proof (intro allI impI)
    fix u assume u: "u < length adj"
    show "?adj'' ! u
       = (if int u \<in> set (take (Suc k) (adj ! e)) then remove1 (int e) (adj ! u) else adj ! u)"
    proof (cases "u = nat ?j")
      case True
      with j(1) have "int u = ?j" by simp
      with True u k aj Suc.prems(2) show ?thesis
        by (simp add: take_Suc_conv_app_nth)
    next
      case False
      with j(1) have "int u \<noteq> ?j" by auto
      with False u k Suc.prems(3) show ?thesis
        by (simp add: take_Suc_conv_app_nth)
    qed
  qed
  have "\<exists>adj1. remove_elem (int e) e (Suc k) ?adj'' = Inr adj1 \<and> length adj1 = length adj
      \<and> (\<forall>u<length adj. adj1 ! u
            = (if int u \<in> set (adj ! e) then remove1 (int e) (adj ! u) else adj ! u))"
    by (rule Suc.hyps(1)) (use Suc.hyps(2) k Suc.prems(2) inv in simp_all)
  moreover have "remove_elem (int e) e k adj' = remove_elem (int e) e (Suc k) ?adj''"
    using k same j aj Suc.prems(2)
    by (simp add: remove_elem.simps [of "int e" e k adj'] np_index_nat)
  ultimately show ?case by simp
qed

lemma remove_elem_result:
  assumes "e < length adj" and "int e \<notin> set (adj ! e)" and "distinct (adj ! e)"
    and "\<forall>j\<in>set (adj ! e). 0 \<le> j \<and> j < int (length adj) \<and> int e \<in> set (adj ! nat j)"
  shows "\<exists>adj1. remove_elem (int e) e 0 adj = Inr adj1 \<and> length adj1 = length adj
      \<and> (\<forall>u<length adj. adj1 ! u
            = (if int u \<in> set (adj ! e) then remove1 (int e) (adj ! u) else adj ! u))"
  by (rule remove_elem_from [OF assms]) simp_all

lemma er_step:
  assumes g: "graph_ok adj0" and inv: "er_inv adj0 adj unvisited"
    and el: "elem \<in> set unvisited" and more: "2 \<le> length unvisited"
  shows "\<exists>adj' sel r'.
      er_loop child (i # is) adj unvisited elem r h
        = er_loop child is adj' (remove1 elem unvisited) sel r'
            (set_x h child ((x (h ! child))[i := elem]))
      \<and> er_inv adj0 adj' (remove1 elem unvisited)
      \<and> sel \<in> set (remove1 elem unvisited)
      \<and> (adj ! nat elem \<noteq> [] \<longrightarrow> sel \<in> set (adj ! nat elem))"
proof -
  let ?n = "length adj0"
  let ?e = "nat elem"
  let ?U = "set unvisited"
  let ?u1 = "remove1 elem unvisited"
  let ?h1 = "set_x h child ((x (h ! child))[i := elem])"
  from inv have len: "length adj = ?n" and du: "distinct unvisited"
    and sub: "?U \<subseteq> int ` {0..<?n}"
    and lists: "\<And>u. u < ?n \<Longrightarrow> distinct (adj ! u)"
      "\<And>u. u < ?n \<Longrightarrow> set (adj ! u) = (if int u \<in> ?U then set (adj0 ! u) \<inter> ?U else {})"
    by (simp_all add: er_inv_def)
  from g have noloop: "\<And>u. u < ?n \<Longrightarrow> int u \<notin> set (adj0 ! u)"
    and edge: "\<And>u w. u < ?n \<Longrightarrow> w \<in> set (adj0 ! u) \<Longrightarrow>
        0 \<le> w \<and> w < int ?n \<and> int u \<in> set (adj0 ! nat w)"
    by (simp_all add: graph_ok_def)
  from el sub have er: "0 \<le> elem" "elem < int ?n" by auto
  then have e: "?e < ?n" "int ?e = elem" by (simp_all add: nat_less_iff)
  from er len have ie: "np_index (length adj) elem = Some ?e" by (simp add: np_index_nat)
  from lists(2) [OF e(1)] e(2) el have se: "set (adj ! ?e) = set (adj0 ! ?e) \<inter> ?U" by simp
  have u1: "distinct ?u1" "set ?u1 = ?U - {elem}"
    using du by simp_all
  from du more have "length ?u1 \<ge> 1" by (simp add: length_remove1 el)
  then have u1ne: "?u1 \<noteq> []" by auto
  have r: "\<exists>adj1. remove_elem (int ?e) ?e 0 adj = Inr adj1 \<and> length adj1 = length adj
      \<and> (\<forall>u<length adj. adj1 ! u
            = (if int u \<in> set (adj ! ?e) then remove1 (int ?e) (adj ! u) else adj ! u))"
  proof (rule remove_elem_result)
    show "?e < length adj" using e len by simp
    show "int ?e \<notin> set (adj ! ?e)" using se noloop [OF e(1)] by simp
    show "distinct (adj ! ?e)" using lists(1) [OF e(1)] .
    show "\<forall>j\<in>set (adj ! ?e). 0 \<le> j \<and> j < int (length adj) \<and> int ?e \<in> set (adj ! nat j)"
    proof
      fix j assume "j \<in> set (adj ! ?e)"
      with se have j: "j \<in> set (adj0 ! ?e)" "j \<in> ?U" by simp_all
      from edge [OF e(1) j(1)] have jr: "0 \<le> j" "j < int ?n" "int ?e \<in> set (adj0 ! nat j)"
        by simp_all
      then have "nat j < ?n" "int (nat j) = j" by (simp_all add: nat_less_iff)
      with lists(2) [of "nat j"] j(2) jr(3) e(2) el have "int ?e \<in> set (adj ! nat j)" by simp
      with jr len show "0 \<le> j \<and> j < int (length adj) \<and> int ?e \<in> set (adj ! nat j)" by simp
    qed
  qed
  then obtain adj1 where a1: "remove_elem elem ?e 0 adj = Inr adj1" "length adj1 = ?n"
    and a1n: "\<And>u. u < ?n \<Longrightarrow> adj1 ! u
            = (if int u \<in> set (adj ! ?e) then remove1 elem (adj ! u) else adj ! u)"
    using e(2) len by auto
  have a1e: "adj1 ! ?e = adj ! ?e"
    using a1n [OF e(1)] se noloop [OF e(1)] e(2) by simp
  have a1s: "distinct (adj1 ! u) \<and> set (adj1 ! u) = set (adj ! u) - {elem}" if u: "u < ?n" for u
  proof (cases "int u \<in> set (adj ! ?e)")
    case True
    with a1n [OF u] lists(1) [OF u] show ?thesis by simp
  next
    case False
    have "elem \<notin> set (adj ! u)"
    proof
      assume m: "elem \<in> set (adj ! u)"
      with lists(2) [OF u] have uU: "int u \<in> ?U" and "elem \<in> set (adj0 ! u)"
        by (auto split: if_splits)
      with edge [OF u, of elem] have "int u \<in> set (adj0 ! ?e)" by simp
      with uU se False show False by simp
    qed
    with False a1n [OF u] lists(1) [OF u] show ?thesis by simp
  qed
  have inv1: "er_inv adj0 adj' ?u1"
    if l: "length adj' = ?n" and o: "\<And>u. u < ?n \<Longrightarrow> u \<noteq> ?e \<Longrightarrow> adj' ! u = adj1 ! u"
      and z: "adj' ! ?e = []" for adj'
    unfolding er_inv_def
  proof (intro conjI allI impI)
    show "length adj' = ?n" by fact
    show "distinct ?u1" by fact
    show "set ?u1 \<subseteq> int ` {0..<?n}" using u1(2) sub by auto
  next
    fix u assume u: "u < ?n"
    show "distinct (adj' ! u)"
      using a1s [OF u] o [OF u] z by (cases "u = ?e") simp_all
    show "set (adj' ! u) = (if int u \<in> set ?u1 then set (adj0 ! u) \<inter> set ?u1 else {})"
    proof (cases "u = ?e")
      case True
      with z u1(2) e(2) show ?thesis by simp
    next
      case False
      with e(2) have "int u \<noteq> elem" by auto
      with a1s [OF u] o [OF u False] lists(2) [OF u] u1(2) show ?thesis by auto
    qed
  qed
  show ?thesis
  proof (cases "adj1 ! ?e = []")
    case True
    from choice_member [OF u1ne, of r] obtain sel r' where
      c: "choice ?u1 r = Inr (sel, r')" "sel \<in> set ?u1" by blast
    have "er_loop child (i # is) adj unvisited elem r h = er_loop child is adj1 ?u1 sel r' ?h1"
      using el ie a1(1) True c(1) by (simp add: Let_def)
    moreover have "er_inv adj0 adj1 ?u1"
      by (rule inv1) (use a1(2) True in simp_all)
    ultimately show ?thesis using c(2) True a1e by auto
  next
    case False
    let ?l = "adj1 ! ?e"
    from False have hl: "hd ?l \<in> set ?l" "set (tl ?l) \<subseteq> set ?l"
      by (simp_all add: list.set_sel(2) subsetI)
    have inr: "0 \<le> w \<and> w < int ?n" if "w \<in> set ?l" for w
      using that a1e se edge [OF e(1), of w] by simp
    from inr [OF hl(1)] a1(2) have c0: "np_index (length adj1) (hd ?l) = Some (nat (hd ?l))"
      by (simp add: np_index_nat)
    have "\<forall>e2\<in>set (tl ?l). 0 \<le> e2 \<and> e2 < int (length adj1)"
      using inr hl(2) a1(2) by auto
    from select_candidates_result [OF this, of "[hd ?l]" "length (adj1 ! nat (hd ?l))"]
    obtain cs where cs: "select_candidates adj1 (length (adj1 ! nat (hd ?l))) (tl ?l) [hd ?l] = Inr cs"
      "cs \<noteq> []" "set cs \<subseteq> set ?l"
      using hl by auto
    from choice_member [OF cs(2), of r] obtain sel r' where
      c: "choice cs r = Inr (sel, r')" "sel \<in> set cs" by blast
    have "er_loop child (i # is) adj unvisited elem r h
        = er_loop child is (adj1[?e := []]) ?u1 sel r' ?h1"
      using el ie a1(1) False c0 cs(1) c(1) by (simp add: Let_def)
    moreover have "er_inv adj0 (adj1[?e := []]) ?u1"
      by (rule inv1) (use a1(2) e(1) in simp_all)
    moreover from c(2) cs(3) a1e have sm: "sel \<in> set (adj ! ?e)" by auto
    moreover from sm se noloop [OF e(1)] e(2) u1(2) have "sel \<in> set ?u1" by auto
    ultimately show ?thesis by blast
  qed
qed

lemma er_inv_range:
  "er_inv adj0 adj unvisited \<Longrightarrow> e \<in> set unvisited \<Longrightarrow> 0 \<le> e \<and> e < int (length adj0)"
  by (auto simp: er_inv_def)

lemma er_loop_visits_all:
  assumes g: "graph_ok adj0"
  shows "er_inv adj0 adj unvisited \<Longrightarrow> elem \<in> set unvisited \<Longrightarrow>
    length unvisited = length adj0 - i \<Longrightarrow> i < length adj0 \<Longrightarrow>
    length (x (h ! child)) = length adj0 \<Longrightarrow> child < length h \<Longrightarrow>
    distinct (take i (x (h ! child))) \<Longrightarrow>
    set (take i (x (h ! child))) = int ` {0..<length adj0} - set unvisited \<Longrightarrow>
    \<exists>last h'. er_loop child [i..<length adj0 - 1] adj unvisited elem r h = (Inr last, h')
      \<and> length (x (h' ! child)) = length adj0
      \<and> distinct (take (length adj0 - 1) (x (h' ! child)))
      \<and> set (take (length adj0 - 1) (x (h' ! child))) = int ` {0..<length adj0} - {last}
      \<and> 0 \<le> last \<and> last < int (length adj0)"
proof (induction "length adj0 - 1 - i" arbitrary: i adj unvisited elem r h)
  case 0
  then have i: "i = length adj0 - 1" by simp
  with "0.prems"(3,4) have "length unvisited = 1" by simp
  then obtain y where "unvisited = [y]" by (cases unvisited) simp_all
  with "0.prems"(2) have u: "set unvisited = {elem}" by simp
  from er_inv_range [OF "0.prems"(1,2)] "0.prems" i u show ?case by simp
next
  case (Suc d)
  let ?n = "length adj0"
  let ?cx = "x (h ! child)"
  let ?u1 = "remove1 elem unvisited"
  let ?h1 = "set_x h child (?cx[i := elem])"
  from Suc.hyps(2) have i: "i < ?n - 1" by simp
  then have up: "[i..<?n - 1] = i # [Suc i..<?n - 1]" by (simp add: upt_conv_Cons)
  from i Suc.prems(3) have "2 \<le> length unvisited" by simp
  from er_step [OF g Suc.prems(1,2) this, of child i "[Suc i..<?n - 1]" r h]
  obtain adj' sel r' where s:
    "er_loop child (i # [Suc i..<?n - 1]) adj unvisited elem r h
       = er_loop child [Suc i..<?n - 1] adj' ?u1 sel r' ?h1"
    "er_inv adj0 adj' ?u1" "sel \<in> set ?u1"
    by blast
  from Suc.prems(1) have du: "distinct unvisited" by (simp add: er_inv_def)
  have x1: "x (?h1 ! child) = ?cx[i := elem]"
    using Suc.prems(6) by (simp add: set_x_same)
  from i Suc.prems(5) have il: "i < length ?cx" by simp
  then have t1: "take (Suc i) (?cx[i := elem]) = take i ?cx @ [elem]"
    by (simp add: take_Suc_conv_app_nth)
  from Suc.prems(2,8) have fresh: "elem \<notin> set (take i ?cx)" by simp
  from er_inv_range [OF Suc.prems(1,2)] have "elem \<in> int ` {0..<?n}"
    by (auto simp: image_iff intro!: bexI [of _ "nat elem"])
  with Suc.prems(8) du have s1: "set (take i ?cx @ [elem]) = int ` {0..<?n} - set ?u1"
    by auto
  have "\<exists>last h'. er_loop child [Suc i..<?n - 1] adj' ?u1 sel r' ?h1 = (Inr last, h')
      \<and> length (x (h' ! child)) = ?n
      \<and> distinct (take (?n - 1) (x (h' ! child)))
      \<and> set (take (?n - 1) (x (h' ! child))) = int ` {0..<?n} - {last}
      \<and> 0 \<le> last \<and> last < int ?n"
  proof (rule Suc.hyps(1))
    show "d = ?n - 1 - Suc i" using Suc.hyps(2) by simp
    show "er_inv adj0 adj' ?u1" by fact
    show "sel \<in> set ?u1" by fact
    show "length ?u1 = ?n - Suc i"
      using Suc.prems(2,3) by (simp add: length_remove1)
    show "Suc i < ?n" using i by simp
    show "length (x (?h1 ! child)) = ?n" using Suc.prems(5) by (simp add: x1)
    show "child < length ?h1" using Suc.prems(6) by (simp add: length_set_x)
    show "distinct (take (Suc i) (x (?h1 ! child)))"
      unfolding x1 t1 using Suc.prems(7) fresh by simp
    show "set (take (Suc i) (x (?h1 ! child))) = int ` {0..<?n} - set ?u1"
      unfolding x1 t1 by (rule s1)
  qed
  with s(1) up show ?case by simp
qed

lemma pred_mod: "0 < n \<Longrightarrow> i < n \<Longrightarrow> (int i - 1) mod int n = int ((i + n - 1) mod n)"
proof -
  assume n: "0 < n" and i: "i < n"
  have "(int i - 1) mod int n = (int i - 1 + int n) mod int n" by simp
  also have "int i - 1 + int n = int (i + n - 1)" using n by (simp add: of_nat_diff)
  finally show ?thesis by (simp add: zmod_int)
qed

lemma succ_mod: "(int i + 1) mod int n = int ((i + 1) mod n)"
  by (simp add: zmod_int add.commute)

lemma set_append_if_not_contained:
  "set (append_if_not_contained nbs nb) = insert nb (set nbs)"
  by (auto simp: append_if_not_contained_def)

lemma distinct_append_if_not_contained:
  "distinct nbs \<Longrightarrow> distinct (append_if_not_contained nbs nb)"
  by (simp add: append_if_not_contained_def)

lemma build_adj_sets:
  assumes v: "is_permutation v" and n: "0 < length v"
  shows "length adj = length v \<Longrightarrow> \<forall>i\<in>set is. i < length v \<Longrightarrow>
    \<exists>adj'. build_adj (int (length v)) v is adj = Inr adj' \<and> length adj' = length v
      \<and> (\<forall>u<length v.
            set (adj' ! u) = set (adj ! u)
              \<union> {w. \<exists>i\<in>set is. v ! i = int u
                     \<and> (w = v ! ((i + length v - 1) mod length v) \<or> w = v ! ((i + 1) mod length v))}
            \<and> (distinct (adj ! u) \<longrightarrow> distinct (adj' ! u)))"
proof (induction "is" arbitrary: adj)
  case Nil
  then show ?case by simp
next
  case (Cons i "is")
  let ?n = "length v"
  let ?e = "nat (v ! i)"
  let ?a = "(i + ?n - 1) mod ?n" and ?b = "(i + 1) mod ?n"
  let ?adj1 = "adj[?e := append_if_not_contained (adj ! ?e) (v ! ?a)]"
  let ?adj2 = "?adj1[?e := append_if_not_contained (?adj1 ! ?e) (v ! ?b)]"
  from Cons.prems have i: "i < ?n" and rest: "\<forall>i\<in>set is. i < ?n" by simp_all
  from is_permutation_range [OF v i] have vr: "0 \<le> v ! i" "v ! i < int ?n" by simp_all
  then have e: "?e < ?n" "int ?e = v ! i" by (simp_all add: nat_less_iff)
  from vr Cons.prems(1) have ie: "np_index (length adj) (v ! i) = Some ?e"
    by (simp add: np_index_nat)
  have ia: "np_index ?n ((int i - 1) mod int ?n) = Some ?a"
    using n i by (simp add: pred_mod np_index_nat)
  have ib: "np_index ?n ((int i + 1) mod int ?n) = Some ?b"
    using n by (simp add: succ_mod np_index_nat)
  have step: "build_adj (int ?n) v (i # is) adj = build_adj (int ?n) v is ?adj2"
    using ie ia ib by (simp add: Let_def)
  have l2: "length ?adj2 = ?n" using Cons.prems(1) by simp
  from Cons.IH [OF l2 rest] obtain adj' where
    r: "build_adj (int ?n) v is ?adj2 = Inr adj'" "length adj' = ?n"
    and sets: "\<And>u. u < ?n \<Longrightarrow> set (adj' ! u) = set (?adj2 ! u)
              \<union> {w. \<exists>i\<in>set is. v ! i = int u
                     \<and> (w = v ! ((i + ?n - 1) mod ?n) \<or> w = v ! ((i + 1) mod ?n))}"
    and dist: "\<And>u. u < ?n \<Longrightarrow> distinct (?adj2 ! u) \<Longrightarrow> distinct (adj' ! u)"
    by blast
  have a2: "set (?adj2 ! u) = set (adj ! u) \<union> (if u = ?e then {v ! ?a, v ! ?b} else {})"
    "distinct (adj ! u) \<Longrightarrow> distinct (?adj2 ! u)" if "u < ?n" for u
    using that e(1) Cons.prems(1)
    by (auto simp: nth_list_update set_append_if_not_contained
        distinct_append_if_not_contained)
  define N where "N u js = {w. \<exists>i\<in>set js. v ! i = int u
      \<and> (w = v ! ((i + ?n - 1) mod ?n) \<or> w = v ! ((i + 1) mod ?n))}" for u js
  have Ncons: "N u (i # is) = (if u = ?e then {v ! ?a, v ! ?b} else {}) \<union> N u is" for u
  proof -
    have "(v ! i = int u) = (u = ?e)" using e(2) by auto
    then show ?thesis unfolding N_def by auto
  qed
  have "set (adj' ! u) = set (adj ! u) \<union> N u (i # is)
        \<and> (distinct (adj ! u) \<longrightarrow> distinct (adj' ! u))" if u: "u < ?n" for u
  proof -
    from sets [OF u] have "set (adj' ! u) = set (?adj2 ! u) \<union> N u is"
      unfolding N_def .
    also have "set (?adj2 ! u) = set (adj ! u) \<union> (if u = ?e then {v ! ?a, v ! ?b} else {})"
      by (rule a2(1) [OF u])
    finally have "set (adj' ! u) = set (adj ! u) \<union> N u (i # is)"
      unfolding Ncons by (simp add: Un_assoc)
    moreover have "distinct (adj ! u) \<longrightarrow> distinct (adj' ! u)"
      using a2(2) [OF u] dist [OF u] by blast
    ultimately show ?thesis by blast
  qed
  then have "\<forall>u<?n. set (adj' ! u) = set (adj ! u)
              \<union> {w. \<exists>i\<in>set (i # is). v ! i = int u
                     \<and> (w = v ! ((i + ?n - 1) mod ?n) \<or> w = v ! ((i + 1) mod ?n))}
        \<and> (distinct (adj ! u) \<longrightarrow> distinct (adj' ! u))"
    unfolding N_def by blast
  moreover from step r(1) have "build_adj (int ?n) v (i # is) adj = Inr adj'" by simp
  ultimately show ?case using r(2) by blast
qed

subsection \<open>The adjacency lists of the edge recombination\<close>

lemma build_adj_full:
  assumes "is_permutation v" and "0 < length v" and "length adj = length v"
  shows "\<exists>adj'. build_adj (int (length v)) v [0..<length v] adj = Inr adj'
      \<and> length adj' = length v
      \<and> (\<forall>u<length v. set (adj' ! u) = set (adj ! u) \<union> neighbours v u
            \<and> (distinct (adj ! u) \<longrightarrow> distinct (adj' ! u)))"
proof -
  have "\<forall>i\<in>set [0..<length v]. i < length v" by simp
  from build_adj_sets [OF assms(1,2,3) this] show ?thesis
    unfolding neighbours_def by (simp add: Bex_def)
qed

lemma mod_succ_pred: "k < n \<Longrightarrow> ((k + 1) mod n + n - 1) mod n = (k :: nat)"
proof -
  assume k: "k < n"
  show ?thesis
  proof (cases "k + 1 = n")
    case True
    then show ?thesis using k by simp
  next
    case False
    with k have "k + 1 < n" by simp
    then show ?thesis by simp
  qed
qed

lemma mod_pred_succ: "k < n \<Longrightarrow> ((k + n - 1) mod n + 1) mod n = (k :: nat)"
proof -
  assume k: "k < n"
  show ?thesis
  proof (cases k)
    case 0
    with k show ?thesis by simp
  next
    case (Suc j)
    with k have "(k + n - 1) mod n = j" by (simp add: mod_if)
    with Suc k show ?thesis by simp
  qed
qed

lemma mod_succ_neq: "2 \<le> n \<Longrightarrow> k < n \<Longrightarrow> (k + 1) mod n \<noteq> (k :: nat)"
  by (cases "k + 1 = n") auto

lemma mod_pred_neq: "2 \<le> n \<Longrightarrow> k < n \<Longrightarrow> (k + n - 1) mod n \<noteq> (k :: nat)"
  using mod_pred_succ [of k n] mod_succ_neq [of n "(k + n - 1) mod n"] by auto

lemma neighbours_nth:
  assumes v: "is_permutation v" and k: "k < length v"
  shows "neighbours v (nat (v ! k))
    = {v ! ((k + length v - 1) mod length v), v ! ((k + 1) mod length v)}"
proof -
  from is_permutation_range [OF v k] have e: "int (nat (v ! k)) = v ! k" by simp
  from is_permutation_distinct [OF v] have d: "distinct v" .
  have "i = k" if "i < length v" "v ! i = v ! k" for i
    using d k that by (simp add: nth_eq_iff_index_eq)
  then have "neighbours v (nat (v ! k))
      \<subseteq> {v ! ((k + length v - 1) mod length v), v ! ((k + 1) mod length v)}"
    unfolding neighbours_def e by blast
  moreover have "{v ! ((k + length v - 1) mod length v), v ! ((k + 1) mod length v)}
      \<subseteq> neighbours v (nat (v ! k))"
    unfolding neighbours_def e using k by blast
  ultimately show ?thesis by (rule equalityI)
qed

lemma neighbours_graph:
  assumes v: "is_permutation v" and n: "2 \<le> length v" and u: "u < length v"
    and w: "w \<in> neighbours v u"
  shows "0 \<le> w \<and> w < int (length v) \<and> w \<noteq> int u \<and> int u \<in> neighbours v (nat w)"
proof -
  let ?n = "length v"
  from is_permutation_distinct [OF v] have d: "distinct v" .
  from u is_permutation_index [OF v, of "int u"]
  obtain k where k: "k < ?n" "v ! k = int u" by auto
  then have uk: "u = nat (v ! k)" by simp
  from n have "0 < ?n" by linarith
  then have m: "(k + ?n - 1) mod ?n < ?n" "(k + 1) mod ?n < ?n" by simp_all
  have neq: "v ! a \<noteq> int u" if "a < ?n" "a \<noteq> k" for a
  proof -
    from d k(1) that have "v ! a \<noteq> v ! k" by (simp add: nth_eq_iff_index_eq)
    with k(2) show ?thesis by simp
  qed
  from w neighbours_nth [OF v k(1)] uk
  consider "w = v ! ((k + ?n - 1) mod ?n)" | "w = v ! ((k + 1) mod ?n)" by auto
  then show ?thesis
  proof cases
    case 1
    from neighbours_nth [OF v m(1)] mod_pred_succ [OF k(1)] 1 k(2)
    have "int u \<in> neighbours v (nat w)" by simp
    moreover from neq [OF m(1) mod_pred_neq [OF n k(1)]] 1 have "w \<noteq> int u" by simp
    ultimately show ?thesis using is_permutation_range [OF v m(1)] 1 by simp
  next
    case 2
    from neighbours_nth [OF v m(2)] mod_succ_pred [OF k(1)] 2 k(2)
    have "int u \<in> neighbours v (nat w)" by simp
    moreover from neq [OF m(2) mod_succ_neq [OF n k(1)]] 2 have "w \<noteq> int u" by simp
    ultimately show ?thesis using is_permutation_range [OF v m(2)] 2 by simp
  qed
qed

lemma build_adj_parents:
  assumes sp: "is_permutation sx" and op: "is_permutation ox"
    and len: "length ox = length sx" and n: "0 < length sx"
  shows "\<exists>adj0 adj. build_adj (int (length sx)) sx [0..<length sx] (replicate (length sx) []) = Inr adj0
      \<and> build_adj (int (length sx)) ox [0..<length ox] adj0 = Inr adj
      \<and> length adj = length sx
      \<and> (\<forall>u<length sx. distinct (adj ! u)
            \<and> set (adj ! u) = neighbours sx u \<union> neighbours ox u)"
proof -
  let ?n = "length sx"
  from build_adj_full [OF sp n, of "replicate ?n []"]
  obtain adj0 where a0: "build_adj (int ?n) sx [0..<?n] (replicate ?n []) = Inr adj0"
    "length adj0 = ?n"
    "\<And>u. u < ?n \<Longrightarrow> set (adj0 ! u) = neighbours sx u \<and> distinct (adj0 ! u)"
    by auto
  from n len have "0 < length ox" by simp
  from build_adj_full [OF op this, of adj0] a0(2) len
  obtain adj where a: "build_adj (int ?n) ox [0..<length ox] adj0 = Inr adj"
    "length adj = ?n"
    "\<And>u. u < ?n \<Longrightarrow> set (adj ! u) = set (adj0 ! u) \<union> neighbours ox u
        \<and> (distinct (adj0 ! u) \<longrightarrow> distinct (adj ! u))"
    by auto
  from a0 a show ?thesis by auto
qed

lemma graph_ok_parents:
  assumes sp: "is_permutation sx" and op: "is_permutation ox"
    and len: "length ox = length sx" and n: "2 \<le> length sx"
    and l: "length adj = length sx"
    and sets: "\<forall>u<length sx. distinct (adj ! u)
            \<and> set (adj ! u) = neighbours sx u \<union> neighbours ox u"
  shows "graph_ok adj \<and> er_inv adj adj (map int [0..<length sx])"
proof -
  let ?n = "length sx"
  have edge: "0 \<le> w \<and> w < int ?n \<and> w \<noteq> int u \<and> int u \<in> set (adj ! nat w)"
    if u: "u < ?n" and w: "w \<in> set (adj ! u)" for u w
  proof -
    from w sets u have "w \<in> neighbours sx u \<or> w \<in> neighbours ox u" by simp
    then have f: "0 \<le> w \<and> w < int ?n \<and> w \<noteq> int u
        \<and> (int u \<in> neighbours sx (nat w) \<or> int u \<in> neighbours ox (nat w))"
      using neighbours_graph [OF sp n u, of w] neighbours_graph [OF op, of u w] n len u
      by auto
    then have "nat w < ?n" by (simp add: nat_less_iff)
    with sets f show ?thesis by simp
  qed
  have "graph_ok adj"
    unfolding graph_ok_def l using edge by blast
  moreover have "er_inv adj adj (map int [0..<?n])"
    unfolding er_inv_def l
  proof (intro conjI allI impI)
    show "distinct (map int [0..<?n])" by (simp add: distinct_map)
    show "set (map int [0..<?n]) \<subseteq> int ` {0..<?n}" by simp
  next
    fix u assume u: "u < ?n"
    show "distinct (adj ! u)" using sets u by simp
    have "set (adj ! u) \<subseteq> int ` {0..<?n}"
    proof
      fix w assume "w \<in> set (adj ! u)"
      from edge [OF u this] show "w \<in> int ` {0..<?n}"
        by (auto simp: image_iff intro!: bexI [of _ "nat w"])
    qed
    with u show "set (adj ! u) = (if int u \<in> set (map int [0..<?n])
        then set (adj ! u) \<inter> set (map int [0..<?n]) else {})"
      by auto
  qed simp
  ultimately show ?thesis ..
qed

subsection \<open>The edge recombination returns a permutation\<close>

lemma np_index_last: "0 < n \<Longrightarrow> np_index n (- 1) = Some (n - 1)"
  by (auto simp: np_index_def nat_eq_iff)

lemma er_finish:
  assumes "length cx = n" and "0 < n" and "distinct (take (n - 1) cx)"
    and "set (take (n - 1) cx) = int ` {0..<n} - {last_elem}"
    and "0 \<le> last_elem" and "last_elem < int n"
  shows "is_permutation (cx[n - 1 := last_elem])"
proof -
  from assms(1,2) have "cx[n - 1 := last_elem] = take (n - 1) cx @ [last_elem]"
    by (simp add: upd_conv_take_nth_drop)
  moreover from assms(5,6) have "last_elem \<in> int ` {0..<n}"
    by (auto simp: image_iff intro!: bexI [of _ "nat last_elem"])
  ultimately show ?thesis
    using assms(1,4) by (auto simp: is_permutation_def)
qed

lemma edge_recombination_loop:
  assumes self: "self < length h" and other: "other < length h"
    and sp: "is_permutation (x (h ! self))" and op: "is_permutation (x (h ! other))"
    and len: "length (x (h ! other)) = length (x (h ! self))"
    and n: "0 < length (x (h ! self))"
  shows "\<exists>adj0 adj elem r1 last_elem h2.
      build_adj (int (length (x (h ! self)))) (x (h ! self)) [0..<length (x (h ! self))]
          (replicate (length (x (h ! self))) []) = Inr adj0
      \<and> build_adj (int (length (x (h ! self)))) (x (h ! other)) [0..<length (x (h ! other))] adj0
          = Inr adj
      \<and> randrange (int (length (x (h ! self)))) r = Inr (elem, r1)
      \<and> er_loop (length h) [0..<length (x (h ! self)) - 1] adj
            (map int [0..<length (x (h ! self))]) elem r1 (h @ [h ! self]) = (Inr last_elem, h2)
      \<and> length h2 = Suc (length h)
      \<and> length (x (h2 ! length h)) = length (x (h ! self))
      \<and> is_permutation ((x (h2 ! length h))[length (x (h ! self)) - 1 := last_elem])"
proof -
  let ?n = "length (x (h ! self))"
  let ?h1 = "h @ [h ! self]"
  let ?all = "map int [0..<?n]"
  from build_adj_parents [OF sp op len n]
  obtain adj0 adj where a:
    "build_adj (int ?n) (x (h ! self)) [0..<?n] (replicate ?n []) = Inr adj0"
    "build_adj (int ?n) (x (h ! other)) [0..<length (x (h ! other))] adj0 = Inr adj"
    "length adj = ?n"
    "\<forall>u<?n. distinct (adj ! u)
        \<and> set (adj ! u) = neighbours (x (h ! self)) u \<union> neighbours (x (h ! other)) u"
    by blast
  from n have "0 < int ?n" by simp
  from randrange_range [OF this, of r]
  obtain elem r1 where e: "randrange (int ?n) r = Inr (elem, r1)" "0 \<le> elem" "elem < int ?n"
    by blast
  have "\<exists>last_elem h2. er_loop (length h) [0..<?n - 1] adj ?all elem r1 ?h1 = (Inr last_elem, h2)
      \<and> length (x (h2 ! length h)) = ?n
      \<and> distinct (take (?n - 1) (x (h2 ! length h)))
      \<and> set (take (?n - 1) (x (h2 ! length h))) = int ` {0..<?n} - {last_elem}
      \<and> 0 \<le> last_elem \<and> last_elem < int ?n"
  proof (cases "?n = 1")
    case True
    with e have "elem = 0" by simp
    with True show ?thesis by simp
  next
    case False
    with n have n2: "2 \<le> ?n" by linarith
    from graph_ok_parents [OF sp op len n2 a(3,4)]
    have g: "graph_ok adj" and inv: "er_inv adj adj ?all" by simp_all
    from e have el: "elem \<in> set ?all"
      by (auto simp: image_iff intro!: bexI [of _ "nat elem"])
    from er_loop_visits_all [OF g inv el, of 0 ?h1 "length h" r1] a(3) n
    show ?thesis by simp
  qed
  then obtain last_elem h2 where
    l: "er_loop (length h) [0..<?n - 1] adj ?all elem r1 ?h1 = (Inr last_elem, h2)"
    "length (x (h2 ! length h)) = ?n"
    "distinct (take (?n - 1) (x (h2 ! length h)))"
    "set (take (?n - 1) (x (h2 ! length h))) = int ` {0..<?n} - {last_elem}"
    "0 \<le> last_elem" "last_elem < int ?n"
    by blast
  from er_loop_frame [OF l(1)] have "length h2 = Suc (length h)" by simp
  moreover from er_finish [OF l(2) n l(3-6)]
  have "is_permutation ((x (h2 ! length h))[?n - 1 := last_elem])" .
  ultimately show ?thesis using a(1,2) e(1) l(1,2) by blast
qed

lemma edge_recombination_permutation:
  assumes self: "self < length h" and other: "other < length h"
    and sp: "is_permutation (x (h ! self))" and op: "is_permutation (x (h ! other))"
    and len: "length (x (h ! other)) = length (x (h ! self))"
    and n: "0 < length (x (h ! self))"
  shows "\<exists>h'. edge_recombination self other r h = (Inr (length h), h')
    \<and> is_permutation (x (h' ! length h))
    \<and> length (x (h' ! length h)) = length (x (h ! self))"
proof -
  let ?n = "length (x (h ! self))"
  from edge_recombination_loop [OF assms, of r]
  obtain adj0 adj elem r1 last_elem h2 where f:
    "build_adj (int ?n) (x (h ! self)) [0..<?n] (replicate ?n []) = Inr adj0"
    "build_adj (int ?n) (x (h ! other)) [0..<length (x (h ! other))] adj0 = Inr adj"
    "randrange (int ?n) r = Inr (elem, r1)"
    "er_loop (length h) [0..<?n - 1] adj (map int [0..<?n]) elem r1 (h @ [h ! self])
       = (Inr last_elem, h2)"
    "length h2 = Suc (length h)"
    "length (x (h2 ! length h)) = ?n"
    "is_permutation ((x (h2 ! length h))[?n - 1 := last_elem])"
    by blast
  from n f(6) have "np_index (length (x (h2 ! length h))) (- 1) = Some (?n - 1)"
    by (simp add: np_index_last)
  with f show ?thesis
    by (simp add: edge_recombination_def copy_def Let_def invalidate_def set_x_def)
qed

subsection \<open>Every operator leaves a permutation\<close>

text \<open>
  C1, as stated, fails for the partially mapped crossover at \<open>n = 1\<close>: the second cut
  point is drawn by \<open>random.randrange(size - 1)\<close>, which raises \<open>ValueError\<close> for
  \<open>size = 1\<close>, so no child is returned, whatever the generator delivers.
\<close>

theorem pmx_single_element_raises:
  "\<forall>r. partially_mapped_crossover (\<lambda>k. 0) 0 1 r
      [\<lparr>x = [0], obj_val = 0 :: int, obj_val_valid = True\<rparr>,
       \<lparr>x = [0], obj_val = 0, obj_val_valid = True\<rparr>]
    = (Inl ValueError,
       [\<lparr>x = [0], obj_val = 0, obj_val_valid = True\<rparr>,
        \<lparr>x = [0], obj_val = 0, obj_val_valid = True\<rparr>])"
  by (simp add: partially_mapped_crossover_def pmx_cuts_def pmx_draws_def randrange_def
      randbelow_def split: list.splits)

text \<open>
  C1, amended. For parents that are permutations of \<open>0 .. n-1\<close> with \<open>n \<ge> 1\<close>, every
  draw sequence and every content of the uninitialised index array: \<open>initialize\<close> and
  the search (with a hook that leaves the sequence alone, as the default hook does)
  leave a permutation of \<open>0 .. n-1\<close> in the solution, however the search ends; the
  cycle crossover and the edge recombination return a child that is a permutation of
  \<open>0 .. n-1\<close>; and so does the partially mapped crossover for \<open>n \<ge> 2\<close>.
\<close>

theorem operators_return_permutations:
  assumes self: "self < length h" and other: "other < length h"
    and sp: "is_permutation (x (h ! self))" and op: "is_permutation (x (h ! other))"
    and len: "length (x (h ! other)) = length (x (h ! self))"
    and n: "1 \<le> length (x (h ! self))"
    and hook_x: "\<forall>q1 q2 u a s. x (snd (hook q1 q2 u a s)) = x s"
  shows "is_permutation (x (initialize k r (h ! self)))
    \<and> length (x (initialize k r (h ! self))) = length (x (h ! self))
    \<and> is_permutation (x (sol (snd (two_exchange_neighborhood_search hook calc is_better_obj
          (length (x (h ! self))) best_improvement r (h ! self)))))
    \<and> length (x (sol (snd (two_exchange_neighborhood_search hook calc is_better_obj
          (length (x (h ! self))) best_improvement r (h ! self))))) = length (x (h ! self))
    \<and> (2 \<le> length (x (h ! self)) \<longrightarrow>
         (\<exists>h'. partially_mapped_crossover junk self other r h = (Inr (length h), h')
            \<and> is_permutation (x (h' ! length h))
            \<and> length (x (h' ! length h)) = length (x (h ! self))))
    \<and> (\<exists>h'. cycle_crossover junk self other h = (Inr (length h), h')
            \<and> is_permutation (x (h' ! length h))
            \<and> length (x (h' ! length h)) = length (x (h ! self)))
    \<and> (\<exists>h'. edge_recombination self other r h = (Inr (length h), h')
            \<and> is_permutation (x (h' ! length h))
            \<and> length (x (h' ! length h)) = length (x (h ! self)))"
proof (intro conjI impI)
  show "is_permutation (x (initialize k r (h ! self)))"
    by (rule initialize_permutation [OF sp])
  show "length (x (initialize k r (h ! self))) = length (x (h ! self))"
    by (simp add: initialize_def invalidate_def length_shuffle)
next
  let ?res = "two_exchange_neighborhood_search hook calc is_better_obj
          (length (x (h ! self))) best_improvement r (h ! self)"
  from search_elements [OF hook_x]
  have m: "mset (x (sol (snd ?res))) = mset (x (h ! self))" .
  from is_permutation_mset [OF m sp] show "is_permutation (x (sol (snd ?res)))" .
  from m show "length (x (sol (snd ?res))) = length (x (h ! self))"
    by (rule mset_eq_length)
next
  assume "2 \<le> length (x (h ! self))"
  from pmx_permutation [OF self other sp op len this]
  show "\<exists>h'. partially_mapped_crossover junk self other r h = (Inr (length h), h')
            \<and> is_permutation (x (h' ! length h))
            \<and> length (x (h' ! length h)) = length (x (h ! self))" .
next
  from cycle_crossover_result [OF self other sp op len, of junk]
  obtain h' where c: "cycle_crossover junk self other h = (Inr (length h), h')"
    "x (h' ! length h) = x (h ! self) \<or> x (h' ! length h) = x (h ! other)"
    by blast
  from c(2) sp op len have "is_permutation (x (h' ! length h))
      \<and> length (x (h' ! length h)) = length (x (h ! self))"
    by auto
  with c(1) show "\<exists>h'. cycle_crossover junk self other h = (Inr (length h), h')
            \<and> is_permutation (x (h' ! length h))
            \<and> length (x (h' ! length h)) = length (x (h ! self))"
    by blast
next
  from n have "0 < length (x (h ! self))" by linarith
  from edge_recombination_permutation [OF self other sp op len this]
  show "\<exists>h'. edge_recombination self other r h = (Inr (length h), h')
            \<and> is_permutation (x (h' ! length h))
            \<and> length (x (h' ! length h)) = length (x (h ! self))" .
qed

theorem operators_return_permutations_witness:
  "is_permutation [2, 0, 1] \<and> is_permutation [1, 2, 0]
   \<and> x (initialize () [1, 0] \<lparr>x = [2, 0, 1], obj_val = 0 :: int, obj_val_valid = True\<rparr>) = [1, 2, 0]
   \<and> is_permutation (x (sol (snd (two_exchange_neighborhood_search two_exchange_delta_eval
        (\<lambda>s. x s ! 0) (<) 3 True [1, 0] \<lparr>x = [2, 0, 1], obj_val = 0 :: int, obj_val_valid = True\<rparr>))))
   \<and> (\<exists>h'. partially_mapped_crossover (\<lambda>k. 0) 0 1 [1, 0]
          [\<lparr>x = [2, 0, 1], obj_val = 0 :: int, obj_val_valid = True\<rparr>,
           \<lparr>x = [1, 2, 0], obj_val = 0, obj_val_valid = True\<rparr>] = (Inr 2, h')
        \<and> is_permutation (x (h' ! 2)))
   \<and> (\<exists>h'. cycle_crossover (\<lambda>k. 0) 0 1
          [\<lparr>x = [2, 0, 1], obj_val = 0 :: int, obj_val_valid = True\<rparr>,
           \<lparr>x = [1, 2, 0], obj_val = 0, obj_val_valid = True\<rparr>] = (Inr 2, h')
        \<and> is_permutation (x (h' ! 2)))
   \<and> (\<exists>h'. edge_recombination 0 1 [1, 0]
          [\<lparr>x = [2, 0, 1], obj_val = 0 :: int, obj_val_valid = True\<rparr>,
           \<lparr>x = [1, 2, 0], obj_val = 0, obj_val_valid = True\<rparr>] = (Inr 2, h')
        \<and> is_permutation (x (h' ! 2)))"
proof -
  let ?h = "[\<lparr>x = [2, 0, 1], obj_val = 0 :: int, obj_val_valid = True\<rparr>,
             \<lparr>x = [1, 2, 0], obj_val = 0, obj_val_valid = True\<rparr>]"
  have p: "is_permutation [2, 0, 1]" "is_permutation [1, 2, 0]"
    by code_simp+
  have i: "x (initialize () [1, 0] \<lparr>x = [2, 0, 1], obj_val = 0 :: int, obj_val_valid = True\<rparr>)
      = [1, 2, 0]"
    by code_simp
  have a: "0 < length ?h" "1 < length ?h" "is_permutation (x (?h ! 0))"
    "is_permutation (x (?h ! 1))" "length (x (?h ! 1)) = length (x (?h ! 0))"
    "1 \<le> length (x (?h ! 0))"
    using p by simp_all
  have hx: "\<forall>q1 q2 u a s. x (snd (two_exchange_delta_eval q1 q2 u a (s :: int solution))) = x s"
    by (simp add: two_exchange_delta_eval_def invalidate_def)
  note t = operators_return_permutations [OF a hx, where calc = "\<lambda>s. x s ! 0"
      and is_better_obj = "(<)" and best_improvement = True and r = "[1, 0]" and junk = "\<lambda>k. 0" and k = "()"]
  from t have "is_permutation (x (sol (snd (two_exchange_neighborhood_search two_exchange_delta_eval
        (\<lambda>s. x s ! 0) (<) 3 True [1, 0] \<lparr>x = [2, 0, 1], obj_val = 0 :: int, obj_val_valid = True\<rparr>))))"
    by (auto simp: numeral_2_eq_2 numeral_3_eq_3)
  moreover from t have "\<exists>h'. partially_mapped_crossover (\<lambda>k. 0) 0 1 [1, 0] ?h = (Inr 2, h')
        \<and> is_permutation (x (h' ! 2))"
    by (auto simp: numeral_2_eq_2 numeral_3_eq_3)
  moreover from t have "\<exists>h'. cycle_crossover (\<lambda>k. 0) 0 1 ?h = (Inr 2, h')
        \<and> is_permutation (x (h' ! 2))"
    by (auto simp: numeral_2_eq_2 numeral_3_eq_3)
  moreover from t have "\<exists>h'. edge_recombination 0 1 [1, 0] ?h = (Inr 2, h')
        \<and> is_permutation (x (h' ! 2))"
    by (auto simp: numeral_2_eq_2 numeral_3_eq_3)
  ultimately show ?thesis using p i by blast
qed

subsection \<open>Edge recombination of a tour with itself\<close>













end
